theory Spec2Isabelle
  imports Complex_Main "HOL-Library.Sublist" "HOL-Library.Option_ord"
begin

chapter \<open>The fuzzy search of the guide catalog\<close>

text \<open>
  A model of the search engine of the site: the keyword table and the expansion of a
  query (\<open>search-keywords.js\<close>), the fuzzy matcher, the search over a catalog, the
  search index and the search manager (classes \<open>FuzzySearch\<close> and \<open>SearchManager\<close>),
  and the edit distance of \<open>SearchBox.js\<close>; then the properties of the engine that
  the specification states, each proved of the model or refuted at a concrete input.
  An operation that can raise returns a sum, \<open>Inl\<close> the error.
\<close>

section \<open>Strings\<close>

text \<open>
  A JavaScript string is modelled as a \<^typ>\<open>string\<close>, one \<^typ>\<open>char\<close> per code unit.
  The catalog and the keyword table are ASCII text, and the model covers ASCII: only
  \<open>A\<close>..\<open>Z\<close> have a lower-case form, and the white space of \<open>trim\<close> and of the
  regular expression class \<open>\s\<close> is tab, line feed, vertical tab, form feed, carriage
  return and space.
\<close>

definition toLowerChar :: "char \<Rightarrow> char" where
  "toLowerChar c =
     (if 65 \<le> (of_char c :: nat) \<and> (of_char c :: nat) \<le> 90
      then char_of ((of_char c :: nat) + 32) else c)"

definition toLowerCase :: "string \<Rightarrow> string" where
  "toLowerCase s = map toLowerChar s"

definition isSpace :: "char \<Rightarrow> bool" where
  "isSpace c \<longleftrightarrow> (9 \<le> (of_char c :: nat) \<and> (of_char c :: nat) \<le> 13) \<or> (of_char c :: nat) = 32"

definition trim :: "string \<Rightarrow> string" where
  "trim s = rev (dropWhile isSpace (rev (dropWhile isSpace s)))"

text \<open>\<open>text.indexOf(query)\<close>: the first position at which \<open>query\<close> occurs, \<open>None\<close> for -1.\<close>

fun indexOfFrom :: "nat \<Rightarrow> string \<Rightarrow> string \<Rightarrow> nat option" where
  "indexOfFrom i [] q = (if q = [] then Some i else None)"
| "indexOfFrom i (c # cs) q =
     (if prefix q (c # cs) then Some i else indexOfFrom (Suc i) cs q)"

definition indexOf :: "string \<Rightarrow> string \<Rightarrow> nat option" where
  "indexOf s q = indexOfFrom 0 s q"

definition str_includes :: "string \<Rightarrow> string \<Rightarrow> bool" where
  "str_includes s q \<longleftrightarrow> indexOf s q \<noteq> None"

text \<open>\<open>parts.join(' ')\<close>.\<close>

fun join :: "string list \<Rightarrow> string" where
  "join [] = []"
| "join [s] = s"
| "join (s # t # ss) = s @ '' '' @ join (t # ss)"

text \<open>
  \<open>s.split(/\s+/)\<close>: the pieces between maximal runs of white space; a run at the
  start or at the end of \<open>s\<close> leaves an empty first or last piece, and the empty
  string splits into one empty piece.
\<close>

function splitWs :: "string \<Rightarrow> string \<Rightarrow> string list" where
  "splitWs cur [] = [cur]"
| "splitWs cur (c # cs) =
     (if isSpace c then cur # splitWs [] (dropWhile isSpace cs)
      else splitWs (cur @ [c]) cs)"
  by pat_completeness auto
termination
  by (relation "measure (\<lambda>(cur, s). length s)") (auto simp: le_imp_less_Suc length_dropWhile_le)

definition splitWhitespace :: "string \<Rightarrow> string list" where
  "splitWhitespace s = splitWs [] s"

section \<open>Keyword table and query expansion (search-keywords.js)\<close>

text \<open>\<open>SEARCH_KEYWORDS\<close>, in the order of its entries.\<close>

definition SEARCH_KEYWORDS :: "(string \<times> string list) list" where
  "SEARCH_KEYWORDS =
    [(''kubectl'', [''kubernetes'', ''k8s'']),
     (''k8s'', [''kubernetes'', ''kubectl'']),
     (''kubernetes'', [''kubectl'', ''k8s'', ''container'', ''orchestration'']),
     (''docker'', [''container'', ''containerization'']),
     (''containers'', [''docker'', ''kubernetes'', ''k8s'', ''podman'']),
     (''nginx'', [''web server'', ''reverse proxy'', ''load balancer'', ''http'']),
     (''apache'', [''web server'', ''http server'', ''httpd'']),
     (''web server'', [''nginx'', ''apache'', ''haproxy'', ''traefik'', ''caddy'']),
     (''reverse proxy'', [''nginx'', ''haproxy'', ''traefik'']),
     (''load balancer'', [''nginx'', ''haproxy'', ''traefik'']),
     (''postgres'', [''postgresql'']),
     (''postgresql'', [''postgres'', ''sql'', ''database'']),
     (''mysql'', [''mariadb'', ''sql'', ''database'']),
     (''mariadb'', [''mysql'', ''sql'', ''database'']),
     (''mongodb'', [''mongo'', ''nosql'', ''database'']),
     (''mongo'', [''mongodb'']),
     (''redis'', [''cache'', ''key-value'', ''database'']),
     (''database'', [''mysql'', ''postgresql'', ''mongodb'', ''redis'', ''sql'', ''nosql'']),
     (''sql'', [''mysql'', ''postgresql'', ''mariadb'']),
     (''nosql'', [''mongodb'', ''redis'']),
     (''authentication'', [''keycloak'', ''authelia'', ''auth'']),
     (''auth'', [''keycloak'', ''authelia'', ''authentication'']),
     (''vpn'', [''wireguard'', ''openvpn'']),
     (''firewall'', [''fail2ban'', ''security'']),
     (''secrets'', [''vault'', ''security'']),
     (''vault'', [''secrets'', ''hashicorp'', ''security'']),
     (''metrics'', [''prometheus'', ''grafana'', ''monitoring'']),
     (''monitoring'', [''prometheus'', ''grafana'', ''nagios'', ''zabbix'']),
     (''dashboards'', [''grafana'', ''monitoring'']),
     (''alerting'', [''prometheus'', ''grafana'', ''monitoring'']),
     (''chat'', [''mattermost'', ''rocketchat'', ''matrix'', ''communication'']),
     (''slack'', [''mattermost'', ''rocketchat'']),
     (''teams'', [''mattermost'', ''rocketchat'']),
     (''video'', [''jitsi'', ''communication'']),
     (''conference'', [''jitsi'', ''communication'']),
     (''streaming'', [''plex'', ''jellyfin'', ''media'']),
     (''movies'', [''plex'', ''jellyfin'', ''radarr'', ''media'']),
     (''tv'', [''plex'', ''jellyfin'', ''sonarr'', ''media'']),
     (''music'', [''plex'', ''jellyfin'', ''lidarr'', ''media'']),
     (''media server'', [''plex'', ''jellyfin'']),
     (''cms'', [''wordpress'', ''drupal'', ''ghost'']),
     (''blog'', [''wordpress'', ''ghost'']),
     (''wiki'', [''bookstack'', ''outline'']),
     (''notes'', [''bookstack'', ''outline'']),
     (''files'', [''nextcloud'', ''owncloud'']),
     (''cloud storage'', [''nextcloud'', ''owncloud'']),
     (''automation'', [''ansible'', ''terraform'']),
     (''infrastructure as code'', [''terraform'', ''ansible'']),
     (''iac'', [''terraform'', ''ansible'']),
     (''ci/cd'', [''gitlab'', ''jenkins'']),
     (''continuous integration'', [''gitlab'', ''jenkins'']),
     (''git'', [''gitlab'', ''gitea'']),
     (''repository'', [''gitlab'', ''gitea'']),
     (''k8'', [''kubernetes'']),
     (''tf'', [''terraform'']),
     (''pg'', [''postgresql'']),
     (''db'', [''database'']),
     (''lb'', [''load balancer'']),
     (''rp'', [''reverse proxy''])]"

text \<open>
  \<open>SEARCH_KEYWORDS\<close> is a plain object literal, and \<open>SEARCH_KEYWORDS[key]\<close> is a
  property read: a key of the table yields its alias array, any other key is looked up
  on \<open>Object.prototype\<close>, whose properties are functions (the getter \<open>__proto__\<close>
  yields the prototype object itself): values that are truthy and are not arrays.
\<close>

datatype error = TypeError

datatype 'a property = Undefined | Own 'a | Inherited

definition objectPrototypeKeys :: "string list" where
  "objectPrototypeKeys =
     [''constructor'', ''__defineGetter__'', ''__defineSetter__'', ''hasOwnProperty'',
      ''__lookupGetter__'', ''__lookupSetter__'', ''isPrototypeOf'', ''propertyIsEnumerable'',
      ''toString'', ''valueOf'', ''__proto__'', ''toLocaleString'']"

definition getKeywords :: "string \<Rightarrow> string list property" where
  "getKeywords key =
     (case map_of SEARCH_KEYWORDS key of
        Some aliases \<Rightarrow> Own aliases
      | None \<Rightarrow> if key \<in> set objectPrototypeKeys then Inherited else Undefined)"

text \<open>
  A JavaScript \<open>Set\<close> of strings keeps its elements in insertion order, and
  \<open>Array.from\<close> lists them in that order: a list without duplicates, \<open>add\<close> appending
  an element that is not there yet.
\<close>

definition setAdd :: "string list \<Rightarrow> string \<Rightarrow> string list" where
  "setAdd s x = (if x \<in> set s then s else s @ [x])"

definition setAddAll :: "string list \<Rightarrow> string list \<Rightarrow> string list" where
  "setAddAll s xs = fold (\<lambda>x acc. setAdd acc x) xs s"

definition expandPartial :: "string \<Rightarrow> string list \<Rightarrow> string \<times> string list \<Rightarrow> string list" where
  "expandPartial normalizedQuery expandedTerms entry =
     (case entry of (keyword, aliases) \<Rightarrow>
        if str_includes keyword normalizedQuery \<or> str_includes normalizedQuery keyword
        then setAddAll (setAdd expandedTerms keyword) aliases
        else expandedTerms)"

text \<open>
  \<open>expandSearchQuery\<close>. The direct mapping calls \<open>forEach\<close> on whatever truthy value
  the property read yields; on an inherited value, which has no \<open>forEach\<close>, the call
  raises a \<open>TypeError\<close>.
\<close>

definition expandSearchQuery :: "string \<Rightarrow> error + string list" where
  "expandSearchQuery query =
     (let normalizedQuery = trim (toLowerCase query);
          expandedTerms = [normalizedQuery]
      in case getKeywords normalizedQuery of
           Inherited \<Rightarrow> Inl TypeError
         | direct \<Rightarrow>
             (let expandedTerms =
                    (case direct of Own aliases \<Rightarrow> setAddAll expandedTerms aliases
                     | _ \<Rightarrow> expandedTerms);
                  expandedTerms =
                    (if length normalizedQuery > 3
                     then fold (\<lambda>entry acc. expandPartial normalizedQuery acc entry)
                            SEARCH_KEYWORDS expandedTerms
                     else expandedTerms)
              in Inr expandedTerms))"

section \<open>Data model\<close>

text \<open>
  A guide of the catalog. A textual property that is missing (\<open>undefined\<close> or
  \<open>null\<close>) is \<open>None\<close>. \<open>stars\<close> is a count; a missing count behaves as 0 in
  every comparison the engine makes.
\<close>

record GuideEntry =
  name :: "string option"
  displayName :: "string option"
  description :: "string option"
  category :: "string option"
  language :: "string option"
  topics :: "string list option"
  stars :: nat

text \<open>
  A span reported by the matcher, \<open>{start, end, matchType}\<close> (\<open>matchEnd\<close> is the
  property \<open>end\<close>); a character match also records the position in the query.
  \<open>search\<close> copies each span and adds the key and the value it was found in, and the
  expanded term if the span comes from one.
\<close>

record Match =
  start :: nat
  matchEnd :: nat
  matchType :: string
  queryIndex :: "nat option"

datatype key = Name | DisplayName | Description | Category | Language | Topics

record KeyedMatch = Match +
  key :: key
  "value" :: string
  expandedTerm :: "string option"

text \<open>
  Scores are JavaScript numbers; the model computes them as exact rationals.
  A result of the matcher is \<open>{score, matches}\<close>; a result of \<open>search\<close> has these two
  and the item, with \<open>refIndex\<close>, \<open>matchedKey\<close> (\<open>None\<close> for the empty string),
  \<open>keywordScore\<close> and \<open>fuzzyScore\<close> where the source sets them.
\<close>

record 'm Scored =
  score :: rat
  matches :: "'m list"

record ('a, 'm) SearchResult = "'m Scored" +
  item :: 'a
  refIndex :: "int option"
  matchedKey :: "key option"
  keywordScore :: "rat option"
  fuzzyScore :: "rat option"

section \<open>Keyword score (search-keywords.js)\<close>

text \<open>\<open>Boolean(v)\<close> for a string property: neither missing nor empty.\<close>

definition truthy :: "string option \<Rightarrow> bool" where
  "truthy v \<longleftrightarrow> (case v of None \<Rightarrow> False | Some s \<Rightarrow> s \<noteq> [])"

definition searchableText :: "'a GuideEntry_scheme \<Rightarrow> string" where
  "searchableText it =
     toLowerCase (join (map the (filter truthy
       ([name it, displayName it, description it, category it, language it]
        @ map Some (case topics it of None \<Rightarrow> [] | Some ts \<Rightarrow> ts)))))"

text \<open>
  The name/title boost reads \<open>item.name.toLowerCase()\<close> and, when the name does not
  contain the query, \<open>item.displayName.toLowerCase()\<close>: a missing property raises.
\<close>

definition nameBoost :: "'a GuideEntry_scheme \<Rightarrow> string \<Rightarrow> error + bool" where
  "nameBoost it query =
     (case name it of
        None \<Rightarrow> Inl TypeError
      | Some n \<Rightarrow>
          if str_includes (toLowerCase n) (toLowerCase query) then Inr True
          else (case displayName it of
                  None \<Rightarrow> Inl TypeError
                | Some d \<Rightarrow> Inr (str_includes (toLowerCase d) (toLowerCase query))))"

definition calculateSearchScore :: "'a GuideEntry_scheme \<Rightarrow> string \<Rightarrow> string list \<Rightarrow> error + rat" where
  "calculateSearchScore it query expandedTerms =
     (let txt = searchableText it;
          s = 0;
          s = (if str_includes txt (toLowerCase query) then s + 1.0 else s);
          s = fold (\<lambda>term s. if str_includes txt term then s + 0.7 else s) expandedTerms s;
          words = splitWhitespace txt;
          s = fold (\<lambda>word s. if str_includes word (toLowerCase query) then s + 0.5 else s) words s
      in case nameBoost it query of
           Inl e \<Rightarrow> Inl e
         | Inr boost \<Rightarrow>
             (let s = (if boost then s + 0.8 else s);
                  s = (if stars it > 10 then s + 0.1 else s)
              in Inr (min s 2.0)))"

section \<open>Fuzzy matcher (class FuzzySearch)\<close>

text \<open>
  The options of a \<open>FuzzySearch\<close> object that matching and search read. \<open>keys\<close> names
  properties of a guide; the model covers the textual ones.
\<close>

record FuzzySearch =
  threshold :: rat
  distance :: nat
  keys :: "key list"

text \<open>The constructor: a missing option takes its default, and so does a threshold or a distance of 0.\<close>

definition newFuzzySearch :: "rat option \<Rightarrow> nat option \<Rightarrow> key list option \<Rightarrow> FuzzySearch" where
  "newFuzzySearch optThreshold optDistance optKeys =
     \<lparr>threshold = (case optThreshold of None \<Rightarrow> 0.3 | Some t \<Rightarrow> if t = 0 then 0.3 else t),
      distance = (case optDistance of None \<Rightarrow> 100 | Some d \<Rightarrow> if d = 0 then 100 else d),
      keys = (case optKeys of None \<Rightarrow> [Name, DisplayName, Description] | Some ks \<Rightarrow> ks)\<rparr>"

definition defaultFuzzySearch :: FuzzySearch where
  "defaultFuzzySearch = newFuzzySearch None None None"

text \<open>\<open>getValue\<close>: an array is joined with spaces, anything else goes through \<open>String(value || '')\<close>.\<close>

definition getValue :: "'a GuideEntry_scheme \<Rightarrow> key \<Rightarrow> string" where
  "getValue obj k =
     (let str = (\<lambda>v. case v of None \<Rightarrow> [] | Some s \<Rightarrow> s)
      in case k of
           Name \<Rightarrow> str (name obj)
         | DisplayName \<Rightarrow> str (displayName obj)
         | Description \<Rightarrow> str (description obj)
         | Category \<Rightarrow> str (category obj)
         | Language \<Rightarrow> str (language obj)
         | Topics \<Rightarrow> (case topics obj of None \<Rightarrow> [] | Some ts \<Rightarrow> join ts))"

text \<open>
  The word-boundary tier searches \<open>text\<close> with the regular expression \<open>\b\<close> followed
  by the escaped, hence literal, query, ignoring case: the first position that is a word
  boundary (exactly one of its two neighbours is a word character \<open>[A-Za-z0-9_]\<close>) and
  where the query occurs up to case.
\<close>

definition toUpperChar :: "char \<Rightarrow> char" where
  "toUpperChar c =
     (if 97 \<le> (of_char c :: nat) \<and> (of_char c :: nat) \<le> 122
      then char_of ((of_char c :: nat) - 32) else c)"

definition isWordChar :: "char \<Rightarrow> bool" where
  "isWordChar c \<longleftrightarrow>
     (let n = (of_char c :: nat)
      in (65 \<le> n \<and> n \<le> 90) \<or> (97 \<le> n \<and> n \<le> 122) \<or> (48 \<le> n \<and> n \<le> 57) \<or> n = 95)"

definition atWordBoundary :: "char option \<Rightarrow> char option \<Rightarrow> bool" where
  "atWordBoundary left right \<longleftrightarrow>
     (case left of None \<Rightarrow> False | Some c \<Rightarrow> isWordChar c)
       \<noteq> (case right of None \<Rightarrow> False | Some c \<Rightarrow> isWordChar c)"

fun wordBoundarySearch :: "nat \<Rightarrow> char option \<Rightarrow> string \<Rightarrow> string \<Rightarrow> nat option" where
  "wordBoundarySearch i left [] q =
     (if atWordBoundary left None \<and> q = [] then Some i else None)"
| "wordBoundarySearch i left (c # cs) q =
     (if atWordBoundary left (Some c) \<and> prefix (map toUpperChar q) (map toUpperChar (c # cs))
      then Some i
      else wordBoundarySearch (Suc i) (Some c) cs q)"

definition wordBoundaryIndex :: "string \<Rightarrow> string \<Rightarrow> nat option" where
  "wordBoundaryIndex text query = wordBoundarySearch 0 None text query"

text \<open>
  \<open>mergeConsecutiveMatches\<close>: \<open>mergeFrom current rest\<close> is the loop, \<open>current\<close> the span
  being extended; the spans it emits are those pushed to \<open>merged\<close>, in order.
\<close>

fun mergeFrom :: "Match \<Rightarrow> Match list \<Rightarrow> Match list" where
  "mergeFrom current [] = [current]"
| "mergeFrom current (m # ms) =
     (if start m = matchEnd current
      then mergeFrom (current\<lparr>matchEnd := matchEnd m\<rparr>) ms
      else current # mergeFrom m ms)"

definition mergeConsecutiveMatches :: "Match list \<Rightarrow> Match list" where
  "mergeConsecutiveMatches ms =
     (case ms of [] \<Rightarrow> [] | [m] \<Rightarrow> [m] | m # rest \<Rightarrow> mergeFrom m rest)"

definition isBoundaryChar :: "char \<Rightarrow> bool" where
  "isBoundaryChar c \<longleftrightarrow> isSpace c \<or> c = CHR ''-'' \<or> c = CHR ''_''"

text \<open>
  The scan of \<open>fuzzyCharacterMatch\<close>. Its state is the loop's: the score, the spans,
  the position in the query, the last matched position (-1 at first) and the length of
  the current run. It returns the score, the spans and the position in the query.
\<close>

function fuzzyScan ::
  "string \<Rightarrow> string \<Rightarrow> nat \<Rightarrow> rat \<Rightarrow> Match list \<Rightarrow> nat \<Rightarrow> int \<Rightarrow> nat \<Rightarrow> rat \<times> Match list \<times> nat" where
  "fuzzyScan query text textIndex sc ms qIndex lastMatchIndex consecutiveMatches =
     (if textIndex < length text \<and> qIndex < length query then
        (if text ! textIndex = query ! qIndex then
           (let ms = ms @ [\<lparr>start = textIndex, matchEnd = textIndex + 1,
                            matchType = ''character'', queryIndex = Some qIndex\<rparr>];
                consecutive = (int textIndex = lastMatchIndex + 1);
                consecutiveMatches = (if consecutive then consecutiveMatches + 1 else 0);
                sc = (if consecutive then sc + (0.1 + of_nat consecutiveMatches * 0.05) else sc);
                sc = sc + 0.8 / of_nat (length query);
                sc = (if textIndex = 0 \<or> isBoundaryChar (text ! (textIndex - 1))
                      then sc + 0.1 else sc)
            in fuzzyScan query text (textIndex + 1) sc ms (qIndex + 1) (int textIndex)
                 consecutiveMatches)
         else fuzzyScan query text (textIndex + 1) sc ms qIndex lastMatchIndex consecutiveMatches)
      else (sc, ms, qIndex))"
  by pat_completeness auto
termination
  by (relation "measure (\<lambda>(query, text, textIndex, rest). length text - textIndex)") auto

text \<open>
  \<open>fuzzyCharacterMatch\<close>. The distance penalty divides by \<open>Math.min(this.distance,
  textLen)\<close>; with two spans or more the distance is positive and the text has two
  characters or more, so a zero divisor needs \<open>this.distance = 0\<close>, where JavaScript's
  quotient is infinite and the factor is the floor 0.1.
\<close>

definition fuzzyCharacterMatch :: "FuzzySearch \<Rightarrow> string \<Rightarrow> string \<Rightarrow> Match Scored" where
  "fuzzyCharacterMatch fs query text =
     (let queryLen = length query;
          textLen = length text
      in case fuzzyScan query text 0 0 [] 0 (-1) 0 of
           (sc, ms, qIndex) \<Rightarrow>
             if qIndex = queryLen then
               (let sc =
                      (if length ms > 1 then
                         (let dist = int (start (last ms)) - int (start (hd ms));
                              maxDistance = min (distance fs) textLen
                          in if maxDistance = 0 then sc * 0.1
                             else sc * max 0.1 (1 - of_int dist / of_nat maxDistance))
                       else sc);
                    sc = sc + max 0 ((50 - of_nat textLen) / 100)
                in \<lparr>score = min sc 1, matches = mergeConsecutiveMatches ms\<rparr>)
             else \<lparr>score = 0, matches = []\<rparr>)"

text \<open>\<open>fuzzyMatch\<close>: the exact tier, the word-boundary tier, then the character scan.\<close>

definition fuzzyMatch :: "FuzzySearch \<Rightarrow> string \<Rightarrow> string \<Rightarrow> Match Scored" where
  "fuzzyMatch fs query text =
     (let queryLen = length query;
          textLen = length text
      in if queryLen > textLen then \<lparr>score = 0, matches = []\<rparr>
         else case indexOf text query of
           Some exactIndex \<Rightarrow>
             \<lparr>score = 1.0,
              matches = [\<lparr>start = exactIndex, matchEnd = exactIndex + queryLen,
                          matchType = ''exact'', queryIndex = None\<rparr>]\<rparr>
         | None \<Rightarrow>
             (case wordBoundaryIndex text query of
                Some wordIndex \<Rightarrow>
                  \<lparr>score = 0.9,
                   matches = [\<lparr>start = wordIndex, matchEnd = wordIndex + queryLen,
                               matchType = ''word-boundary'', queryIndex = None\<rparr>]\<rparr>
              | None \<Rightarrow> fuzzyCharacterMatch fs query text))"

section \<open>Search (FuzzySearch.search)\<close>

definition keyed :: "key \<Rightarrow> string \<Rightarrow> string option \<Rightarrow> Match \<Rightarrow> KeyedMatch" where
  "keyed k v t m =
     \<lparr>start = start m, matchEnd = matchEnd m, matchType = matchType m,
      queryIndex = queryIndex m, key = k, value = v, expandedTerm = t\<rparr>"

text \<open>
  The best fuzzy match of an item is the triple of \<open>bestFuzzyScore\<close>, \<open>bestMatches\<close>
  and \<open>bestKey\<close>. \<open>termStep\<close> is the body of the loop over the expanded terms,
  \<open>keyStep\<close> the body of the loop over the keys.
\<close>

type_synonym best = "rat \<times> KeyedMatch list \<times> key option"

definition termStep :: "FuzzySearch \<Rightarrow> key \<Rightarrow> string \<Rightarrow> string \<Rightarrow> best \<Rightarrow> best" where
  "termStep fs k v term best =
     (case best of (bestFuzzyScore, bestMatches, bestKey) \<Rightarrow>
        (let expandedResult = fuzzyMatch fs term (toLowerCase v)
         in if score expandedResult > bestFuzzyScore
            then (score expandedResult * 0.8,
                  map (keyed k v (Some term)) (matches expandedResult), Some k)
            else best))"

definition keyStep ::
  "FuzzySearch \<Rightarrow> 'a GuideEntry_scheme \<Rightarrow> string \<Rightarrow> string list \<Rightarrow> key \<Rightarrow> best \<Rightarrow> best" where
  "keyStep fs it normalizedQuery expandedTerms k best =
     (let v = getValue it k
      in if v = [] then best
         else
           (let directResult = fuzzyMatch fs normalizedQuery (toLowerCase v);
                best =
                  (case best of (bestFuzzyScore, bestMatches, bestKey) \<Rightarrow>
                     if score directResult > bestFuzzyScore
                     then (score directResult, map (keyed k v None) (matches directResult), Some k)
                     else best)
            in fold (termStep fs k v) expandedTerms best))"

text \<open>The body of the loop over the items: the result to push, if any.\<close>

definition scoreItem ::
  "FuzzySearch \<Rightarrow> string \<Rightarrow> string \<Rightarrow> string list \<Rightarrow> nat \<Rightarrow> 'a GuideEntry_scheme
     \<Rightarrow> error + ('a GuideEntry_scheme, KeyedMatch) SearchResult option" where
  "scoreItem fs query normalizedQuery expandedTerms i it =
     (case calculateSearchScore it query expandedTerms of
        Inl e \<Rightarrow> Inl e
      | Inr kwScore \<Rightarrow>
          (case fold (keyStep fs it normalizedQuery expandedTerms) (keys fs) (0, [], None) of
             (bestFuzzyScore, bestMatches, bestKey) \<Rightarrow>
               (let totalScore = kwScore + bestFuzzyScore
                in if totalScore \<ge> threshold fs
                   then Inr (Some \<lparr>score = totalScore, matches = bestMatches, item = it,
                                    refIndex = Some (int i), matchedKey = bestKey,
                                    keywordScore = Some kwScore,
                                    fuzzyScore = Some bestFuzzyScore\<rparr>)
                   else Inr None)))"

fun scoreItems ::
  "FuzzySearch \<Rightarrow> string \<Rightarrow> string \<Rightarrow> string list \<Rightarrow> nat \<Rightarrow> 'a GuideEntry_scheme list
     \<Rightarrow> error + ('a GuideEntry_scheme, KeyedMatch) SearchResult list" where
  "scoreItems fs query normalizedQuery expandedTerms i [] = Inr []"
| "scoreItems fs query normalizedQuery expandedTerms i (it # rest) =
     (case scoreItem fs query normalizedQuery expandedTerms i it of
        Inl e \<Rightarrow> Inl e
      | Inr r \<Rightarrow>
          (case scoreItems fs query normalizedQuery expandedTerms (Suc i) rest of
             Inl e \<Rightarrow> Inl e
           | Inr results \<Rightarrow> Inr (case r of None \<Rightarrow> results | Some x \<Rightarrow> x # results)))"

text \<open>
  \<open>results.sort((a, b) => b.score - a.score)\<close>: \<open>Array.prototype.sort\<close> is stable, so
  the outcome is the stable sort by descending score.
\<close>

definition sortByScore :: "('a, 'm) SearchResult list \<Rightarrow> ('a, 'm) SearchResult list" where
  "sortByScore results = sort_key (\<lambda>r. - score r) results"

text \<open>
  \<open>items.indexOf(item)\<close>: the first position that holds the item, -1 if there is
  none. JavaScript compares object references; the model compares the records.
\<close>

fun indexOfItemFrom :: "nat \<Rightarrow> 'a list \<Rightarrow> 'a \<Rightarrow> int" where
  "indexOfItemFrom i [] x = - 1"
| "indexOfItemFrom i (y # ys) x = (if y = x then int i else indexOfItemFrom (Suc i) ys x)"

definition indexOfItem :: "'a list \<Rightarrow> 'a \<Rightarrow> int" where
  "indexOfItem items x = indexOfItemFrom 0 items x"

text \<open>\<open>!query || query.length < n\<close>: the query is missing, empty or shorter than \<open>n\<close>.\<close>

definition tooShort :: "string option \<Rightarrow> nat \<Rightarrow> bool" where
  "tooShort query n \<longleftrightarrow> (case query of None \<Rightarrow> True | Some q \<Rightarrow> q = [] \<or> length q < n)"

definition search ::
  "FuzzySearch \<Rightarrow> 'a GuideEntry_scheme list \<Rightarrow> string option
     \<Rightarrow> error + ('a GuideEntry_scheme, KeyedMatch) SearchResult list" where
  "search fs items query =
     (if tooShort query 2 then
        Inr (map (\<lambda>it. \<lparr>score = 0, matches = [], item = it,
                          refIndex = Some (indexOfItem items it), matchedKey = None,
                          keywordScore = None, fuzzyScore = None\<rparr>) items)
      else
        (let q = the query;
             normalizedQuery = trim (toLowerCase q)
         in case expandSearchQuery normalizedQuery of
              Inl e \<Rightarrow> Inl e
            | Inr expandedTerms \<Rightarrow>
                (case scoreItems fs q normalizedQuery expandedTerms 0 items of
                   Inl e \<Rightarrow> Inl e
                 | Inr results \<Rightarrow> Inr (sortByScore results))))"

section \<open>Search index (createIndex, searchIndex)\<close>

text \<open>
  An indexed item is the guide with \<open>_searchText\<close>, \<open>_searchWords\<close> and
  \<open>_originalIndex\<close> added.
\<close>

record IndexedItem = GuideEntry +
  searchText :: string
  searchWords :: "string list"
  originalIndex :: nat

definition indexItem :: "FuzzySearch \<Rightarrow> nat \<Rightarrow> GuideEntry \<Rightarrow> IndexedItem" where
  "indexItem fs index it =
     (let txt = toLowerCase (join (filter (\<lambda>v. v \<noteq> []) (map (getValue it) (keys fs))))
      in \<lparr>name = name it, displayName = displayName it, description = description it,
          category = category it, language = language it, topics = topics it,
          stars = stars it,
          searchText = txt,
          searchWords = filter (\<lambda>word. length word > 1) (splitWhitespace txt),
          originalIndex = index\<rparr>)"

definition createIndex :: "FuzzySearch \<Rightarrow> GuideEntry list \<Rightarrow> IndexedItem list" where
  "createIndex fs items = map (\<lambda>(index, it). indexItem fs index it) (enumerate 0 items)"

fun searchIndexItems ::
  "FuzzySearch \<Rightarrow> string \<Rightarrow> string \<Rightarrow> IndexedItem list
     \<Rightarrow> error + (IndexedItem, KeyedMatch) SearchResult list" where
  "searchIndexItems fs q normalizedQuery [] = Inr []"
| "searchIndexItems fs q normalizedQuery (it # rest) =
     (let hasWordMatch =
            list_ex (\<lambda>word. str_includes word normalizedQuery \<or> str_includes normalizedQuery word)
              (searchWords it)
      in if \<not> hasWordMatch \<and> length normalizedQuery > 3
         then searchIndexItems fs q normalizedQuery rest
         else
           (case search fs [it] (Some q) of
              Inl e \<Rightarrow> Inl e
            | Inr found \<Rightarrow>
                (case searchIndexItems fs q normalizedQuery rest of
                   Inl e \<Rightarrow> Inl e
                 | Inr results \<Rightarrow>
                     Inr (case found of
                            [] \<Rightarrow> results
                          | r # _ \<Rightarrow> if score r \<ge> threshold fs then r # results else results))))"

definition searchIndex ::
  "FuzzySearch \<Rightarrow> IndexedItem list \<Rightarrow> string option
     \<Rightarrow> error + (IndexedItem, KeyedMatch) SearchResult list" where
  "searchIndex fs indexedItems query =
     (if tooShort query 2 then
        Inr (map (\<lambda>it. \<lparr>score = 0, matches = [], item = it,
                          refIndex = None, matchedKey = None,
                          keywordScore = None, fuzzyScore = None\<rparr>) indexedItems)
      else
        (let q = the query;
             normalizedQuery = trim (toLowerCase q)
         in case searchIndexItems fs q normalizedQuery indexedItems of
              Inl e \<Rightarrow> Inl e
            | Inr results \<Rightarrow> Inr (sortByScore results)))"

section \<open>Highlighting and the search manager\<close>

text \<open>\<open>text.slice(a, b)\<close> and \<open>text.slice(a)\<close> for positions that are not negative.\<close>

definition slice :: "string \<Rightarrow> nat \<Rightarrow> nat \<Rightarrow> string" where
  "slice s a b = take (b - a) (drop a s)"

definition mark :: "string \<Rightarrow> string \<Rightarrow> string" where
  "mark highlightClass matchText =
     ''<mark class='' @ [CHR 0x22] @ highlightClass @ [CHR 0x22] @ ''>'' @ matchText @ ''</mark>''"

text \<open>
  \<open>highlightMatches\<close>, with the default class. Without spans the text is returned as
  it is, even a missing one; with spans, slicing a missing text raises.
\<close>

definition highlightStep :: "string \<Rightarrow> 'a Match_scheme \<Rightarrow> string \<times> nat \<Rightarrow> string \<times> nat" where
  "highlightStep txt m acc =
     (case acc of (result, lastIndex) \<Rightarrow>
        (result @ slice txt lastIndex (start m)
           @ mark ''search-highlight'' (slice txt (start m) (matchEnd m)),
         matchEnd m))"

definition highlightMatches :: "string option \<Rightarrow> 'a Match_scheme list \<Rightarrow> error + string option" where
  "highlightMatches txt ms =
     (if ms = [] then Inr txt
      else case txt of
        None \<Rightarrow> Inl TypeError
      | Some t \<Rightarrow>
          (let sortedMatches = sort_key start ms
           in case fold (highlightStep t) sortedMatches ([], 0) of
                (result, lastIndex) \<Rightarrow> Inr (Some (result @ drop lastIndex t))))"

record SearchManager =
  fuzzySearch :: FuzzySearch
  maxResults :: nat
  minQueryLength :: nat
  searchData :: "GuideEntry list"
  indexData :: "IndexedItem list"
  currentQuery :: "string option"
  selectedIndex :: int

text \<open>
  The constructor and \<open>setData\<close>. \<open>indexData\<close> is the property \<open>searchIndex\<close> of the
  manager.
\<close>

definition newSearchManager :: "FuzzySearch \<Rightarrow> nat option \<Rightarrow> nat option \<Rightarrow> SearchManager" where
  "newSearchManager fs optMaxResults optMinQueryLength =
     \<lparr>fuzzySearch = fs,
      maxResults = (case optMaxResults of None \<Rightarrow> 8 | Some n \<Rightarrow> if n = 0 then 8 else n),
      minQueryLength = (case optMinQueryLength of None \<Rightarrow> 2 | Some n \<Rightarrow> if n = 0 then 2 else n),
      searchData = [], indexData = [], currentQuery = Some [], selectedIndex = - 1\<rparr>"

definition setData :: "SearchManager \<Rightarrow> GuideEntry list \<Rightarrow> SearchManager" where
  "setData mgr data = mgr\<lparr>searchData := data, indexData := createIndex (fuzzySearch mgr) data\<rparr>"

text \<open>
  A formatted result is the indexed item with the score of the result
  (\<open>resultScore\<close> is its property \<open>score\<close>) and the two highlighted texts.
\<close>

record FormattedResult = IndexedItem +
  resultScore :: rat
  highlightedName :: "string option"
  highlightedDescription :: "string option"

definition formatResult :: "(IndexedItem, KeyedMatch) SearchResult \<Rightarrow> error + FormattedResult" where
  "formatResult r =
     (let it = item r;
          shown = (if truthy (displayName it) then displayName it else name it)
      in case highlightMatches shown (matches r) of
           Inl e \<Rightarrow> Inl e
         | Inr hName \<Rightarrow>
             (case highlightMatches (description it) (matches r) of
                Inl e \<Rightarrow> Inl e
              | Inr hDescription \<Rightarrow>
                  Inr \<lparr>name = name it, displayName = displayName it,
                       description = description it, category = category it,
                       language = language it, topics = topics it, stars = stars it,
                       searchText = searchText it, searchWords = searchWords it,
                       originalIndex = originalIndex it,
                       resultScore = score r, highlightedName = hName,
                       highlightedDescription = hDescription\<rparr>))"

fun formatResults :: "(IndexedItem, KeyedMatch) SearchResult list \<Rightarrow> error + FormattedResult list" where
  "formatResults [] = Inr []"
| "formatResults (r # rs) =
     (case formatResult r of
        Inl e \<Rightarrow> Inl e
      | Inr f \<Rightarrow> (case formatResults rs of Inl e \<Rightarrow> Inl e | Inr fs \<Rightarrow> Inr (f # fs)))"

text \<open>
  \<open>SearchManager.search\<close>: the outcome and the manager after the call. The two
  assignments come first, so they are made also when the search raises.
\<close>

definition managerSearch ::
  "SearchManager \<Rightarrow> string option \<Rightarrow> (error + FormattedResult list) \<times> SearchManager" where
  "managerSearch mgr query =
     (let mgr = mgr\<lparr>currentQuery := query, selectedIndex := - 1\<rparr>
      in if tooShort query (minQueryLength mgr) then (Inr [], mgr)
         else
           (case searchIndex (fuzzySearch mgr) (indexData mgr) query of
              Inl e \<Rightarrow> (Inl e, mgr)
            | Inr results \<Rightarrow> (formatResults (take (maxResults mgr) results), mgr)))"

section \<open>Edit distance (SearchBox.js)\<close>

text \<open>
  \<open>levenshteinDistance\<close> fills a matrix, an array of rows. Every assignment
  \<open>xs[i] = v\<close> it makes has \<open>i \<le> xs.length\<close>: it overwrites an element or, at
  \<open>i = xs.length\<close>, appends one.
\<close>

definition setAt :: "'a list \<Rightarrow> nat \<Rightarrow> 'a \<Rightarrow> 'a list" where
  "setAt xs i v = (if i < length xs then xs[i := v] else xs @ [v])"

text \<open>The value stored in \<open>matrix[i][j]\<close> by the body of the inner loop.\<close>

definition cellValue :: "string \<Rightarrow> string \<Rightarrow> nat list list \<Rightarrow> nat \<Rightarrow> nat \<Rightarrow> nat" where
  "cellValue str1 str2 matrix i j =
     (if str2 ! (i - 1) = str1 ! (j - 1) then matrix ! (i - 1) ! (j - 1)
      else min (matrix ! (i - 1) ! (j - 1) + 1)
             (min (matrix ! i ! (j - 1) + 1) (matrix ! (i - 1) ! j + 1)))"

definition levenshteinDistance :: "string \<Rightarrow> string \<Rightarrow> nat" where
  "levenshteinDistance str1 str2 =
     (let matrix = fold (\<lambda>i m. setAt m i [i]) [0..<Suc (length str2)] [];
          matrix = fold (\<lambda>j m. setAt m 0 (setAt (m ! 0) j j)) [0..<Suc (length str1)] matrix;
          matrix =
            fold (\<lambda>i m.
                    fold (\<lambda>j m. setAt m i (setAt (m ! i) j (cellValue str1 str2 m i j)))
                      [1..<Suc (length str1)] m)
              [1..<Suc (length str2)] matrix
      in matrix ! length str2 ! length str1)"

text \<open>
  The acceptance test of the edit-distance step of \<open>isRelevantMatch\<close>, for a word of
  the searchable content: words shorter than 3 are rejected, and the distance may be at
  most \<open>Math.floor(Math.max(query.length, word.length) * 0.3)\<close>.
\<close>

definition maxEditDistance :: "string \<Rightarrow> string \<Rightarrow> nat" where
  "maxEditDistance normalizedQuery word =
     nat \<lfloor>of_nat (max (length normalizedQuery) (length word)) * (0.3 :: rat)\<rfloor>"

definition editDistanceAccepts :: "string \<Rightarrow> string \<Rightarrow> bool" where
  "editDistanceAccepts normalizedQuery word \<longleftrightarrow>
     (if length word < 3 then False
      else levenshteinDistance normalizedQuery word \<le> maxEditDistance normalizedQuery word)"

section \<open>The recurrence of the edit distance\<close>

text \<open>
  The recurrence of the edit distance: \<open>levCell str1 str2 i j\<close> is the distance
  between the first \<open>j\<close> characters of \<open>str1\<close> and the first \<open>i\<close> characters of
  \<open>str2\<close>, the value that the loops store in \<open>matrix[i][j]\<close>. \<open>levRows\<close> and
  \<open>levPartial\<close> describe the matrix between two iterations of the outer and of the
  inner loop.
\<close>

function levCell :: "string \<Rightarrow> string \<Rightarrow> nat \<Rightarrow> nat \<Rightarrow> nat" where
  "levCell str1 str2 i j =
     (if i = 0 then j
      else if j = 0 then i
      else if str2 ! (i - 1) = str1 ! (j - 1) then levCell str1 str2 (i - 1) (j - 1)
      else min (levCell str1 str2 (i - 1) (j - 1) + 1)
             (min (levCell str1 str2 i (j - 1) + 1) (levCell str1 str2 (i - 1) j + 1)))"
  by pat_completeness auto
termination
  by (relation "measure (\<lambda>(str1, str2, i, j). i + j)") auto

definition levRow :: "string \<Rightarrow> string \<Rightarrow> nat \<Rightarrow> nat \<Rightarrow> nat list" where
  "levRow str1 str2 i i' =
     (if i' < i then map (levCell str1 str2 i') [0..<Suc (length str1)] else [i'])"

definition levRows :: "string \<Rightarrow> string \<Rightarrow> nat \<Rightarrow> nat list list" where
  "levRows str1 str2 i = map (levRow str1 str2 i) [0..<Suc (length str2)]"

definition levPartial :: "string \<Rightarrow> string \<Rightarrow> nat \<Rightarrow> nat \<Rightarrow> nat list list" where
  "levPartial str1 str2 i j = (levRows str1 str2 i)[i := map (levCell str1 str2 i) [0..<j]]"

section \<open>Auxiliary notions for the proofs about the character scan\<close>

text \<open>
  \<open>scanScore\<close> is the score after the body of the scan has handled a matching
  character; \<open>charSpan n\<close> holds of the span of one matched character of a text of
  length \<open>n\<close>.
\<close>

definition scanScore :: "string \<Rightarrow> string \<Rightarrow> nat \<Rightarrow> rat \<Rightarrow> int \<Rightarrow> nat \<Rightarrow> rat" where
  "scanScore q t ti sc l c =
     (let c' = (if int ti = l + 1 then c + 1 else 0);
          sc = (if int ti = l + 1 then sc + (0.1 + of_nat c' * 0.05) else sc);
          sc = sc + 0.8 / of_nat (length q)
      in if ti = 0 \<or> isBoundaryChar (t ! (ti - 1)) then sc + 0.1 else sc)"

definition charSpan :: "nat \<Rightarrow> Match \<Rightarrow> bool" where
  "charSpan n m \<longleftrightarrow> matchEnd m = start m + 1 \<and> start m < n \<and> matchType m = ''character''"

section \<open>Auxiliary notions for the proofs about the search loop\<close>

text \<open>
  \<open>directStep\<close> is the first half of the body of the loop over the keys, the test of
  the original query.
\<close>

definition directStep :: "FuzzySearch \<Rightarrow> string \<Rightarrow> key \<Rightarrow> string \<Rightarrow> best \<Rightarrow> best" where
  "directStep fs nq k v best =
     (case best of (bestFuzzyScore, bestMatches, bestKey) \<Rightarrow>
        if score (fuzzyMatch fs nq (toLowerCase v)) > bestFuzzyScore
        then (score (fuzzyMatch fs nq (toLowerCase v)),
              map (keyed k v None) (matches (fuzzyMatch fs nq (toLowerCase v))), Some k)
        else best)"

section \<open>The invariant of a span\<close>

text \<open>
  The invariant that the spec gives for a span applied to a field value,
  \<open>0 \<le> start < end \<le> length(field value)\<close>, and the requirement that no two spans
  of a list intersect. Both follow the words of the spec; the code has no counterpart.
\<close>

definition spanWithinField :: "string \<Rightarrow> 'a Match_scheme \<Rightarrow> bool" where
  "spanWithinField field m \<longleftrightarrow> start m < matchEnd m \<and> matchEnd m \<le> length field"

fun spansNonOverlapping :: "'a Match_scheme list \<Rightarrow> bool" where
  "spansNonOverlapping [] = True"
| "spansNonOverlapping (m # ms) =
     (list_all (\<lambda>b. matchEnd m \<le> start b \<or> matchEnd b \<le> start m) ms \<and> spansNonOverlapping ms)"

section \<open>Auxiliary notions for the proofs about spans\<close>

text \<open>
  \<open>spansOrdered\<close>: every span ends before the next one starts. \<open>bestSpans\<close>: the
  spans of a best fuzzy match are ordered, and each lies within the value recorded in
  it.
\<close>

definition spansOrdered :: "'a Match_scheme list \<Rightarrow> bool" where
  "spansOrdered ms \<longleftrightarrow> sorted_wrt (\<lambda>a b. matchEnd a \<le> start b) ms"

definition bestSpans :: "best \<Rightarrow> bool" where
  "bestSpans best \<longleftrightarrow>
     list_all (\<lambda>m. spanWithinField (value m) m) (fst (snd best)) \<and> spansOrdered (fst (snd best))"

section \<open>Auxiliary notions for the proofs about errors\<close>

text \<open>An entry that has a name and a display name: scoring it does not raise.\<close>

definition wellFormed :: "'a GuideEntry_scheme \<Rightarrow> bool" where
  "wellFormed it \<longleftrightarrow> name it \<noteq> None \<and> displayName it \<noteq> None"

section \<open>Example catalogs\<close>

definition vimPluginsGuide :: GuideEntry where
  "vimPluginsGuide =
     \<lparr>name = Some ''vim-plugins'', displayName = Some ''Vim Plugins'',
      description = Some ''plugins'', category = None, language = None, topics = None,
      stars = 1\<rparr>"

definition vimGuide :: GuideEntry where
  "vimGuide =
     \<lparr>name = Some ''vim'', displayName = Some ''VIM'',
      description = Some ''editor'', category = None, language = None, topics = None,
      stars = 5\<rparr>"

definition installGuide :: GuideEntry where
  "installGuide =
     \<lparr>name = Some ''x'', displayName = Some ''X'',
      description = Some ''how to install vim'', category = None, language = None,
      topics = None, stars = 0\<rparr>"

definition defaultManager :: SearchManager where
  "defaultManager = newSearchManager defaultFuzzySearch None None"

section \<open>Properties of the query expansion\<close>

lemma setAdd_keeps: "x \<in> set s \<Longrightarrow> x \<in> set (setAdd s y)"
  by (simp add: setAdd_def)

lemma setAddAll_keeps: "x \<in> set s \<Longrightarrow> x \<in> set (setAddAll s ys)"
  unfolding setAddAll_def
  by (induction ys arbitrary: s) (simp_all add: setAdd_keeps)

lemma expandPartial_keeps: "x \<in> set s \<Longrightarrow> x \<in> set (expandPartial q s entry)"
  by (cases entry) (simp add: expandPartial_def setAdd_keeps setAddAll_keeps)

lemma fold_expandPartial_keeps:
  "x \<in> set s \<Longrightarrow> x \<in> set (fold (\<lambda>entry acc. expandPartial q acc entry) tbl s)"
  by (induction tbl arbitrary: s) (simp_all add: expandPartial_keeps)

lemma expandSearchQuery_contains_normalized:
  "expandSearchQuery query = Inr terms \<Longrightarrow> trim (toLowerCase query) \<in> set terms"
  unfolding expandSearchQuery_def Let_def
  by (auto split: property.splits if_splits intro!: fold_expandPartial_keeps setAddAll_keeps)

section \<open>Properties of the edit distance\<close>

declare levCell.simps [simp del]

lemma levCell_sym: "levCell a b i j = levCell b a j i"
proof (induction a b i j rule: levCell.induct)
  case (1 str1 str2 i j)
  show ?case
  proof (cases "i = 0 \<or> j = 0")
    case True
    then show ?thesis by (auto simp: levCell.simps [of str1 str2 i j] levCell.simps [of str2 str1 j i])
  next
    case False
    then have ij: "i \<noteq> 0" "j \<noteq> 0" by auto
    show ?thesis
    proof (cases "str2 ! (i - 1) = str1 ! (j - 1)")
      case True
      then have eq: "str1 ! (j - 1) = str2 ! (i - 1)" by simp
      have "levCell str1 str2 i j = levCell str1 str2 (i - 1) (j - 1)"
        using ij True by (simp add: levCell.simps [of str1 str2 i j])
      also have "\<dots> = levCell str2 str1 (j - 1) (i - 1)"
        using ij True 1(1) by simp
      also have "\<dots> = levCell str2 str1 j i"
        using ij eq by (simp add: levCell.simps [of str2 str1 j i])
      finally show ?thesis .
    next
      case False
      then have ne: "str1 ! (j - 1) \<noteq> str2 ! (i - 1)" by auto
      have "levCell str1 str2 i j =
              min (levCell str1 str2 (i - 1) (j - 1) + 1)
                (min (levCell str1 str2 i (j - 1) + 1) (levCell str1 str2 (i - 1) j + 1))"
        using ij False by (simp add: levCell.simps [of str1 str2 i j])
      also have "\<dots> = min (levCell str2 str1 (j - 1) (i - 1) + 1)
                (min (levCell str2 str1 (j - 1) i + 1) (levCell str2 str1 j (i - 1) + 1))"
        using ij False 1(2,3,4) by simp
      also have "\<dots> = min (levCell str2 str1 (j - 1) (i - 1) + 1)
                (min (levCell str2 str1 j (i - 1) + 1) (levCell str2 str1 (j - 1) i + 1))"
        by (simp only: min.commute)
      also have "\<dots> = levCell str2 str1 j i"
        using ij ne by (simp add: levCell.simps [of str2 str1 j i])
      finally show ?thesis .
    qed
  qed
qed

lemma levCell_diag: "levCell a a i i = 0"
proof (induction i)
  case 0
  show ?case by (simp add: levCell.simps)
next
  case (Suc i)
  then show ?case by (simp add: levCell.simps [of a a "Suc i" "Suc i"])
qed


lemma levCell_0 [simp]: "levCell a b 0 j = j"
  by (simp add: levCell.simps)

lemma levCell_0' [simp]: "levCell a b i 0 = i"
  by (simp add: levCell.simps)

lemma levCell_0_map [simp]: "map (levCell a b 0) xs = xs"
  by (induction xs) simp_all

lemma init_rows: "fold (\<lambda>i m. setAt m i [i]) [0..<n] [] = map (\<lambda>i. [i]) [0..<n]"
  by (induction n) (simp_all add: setAt_def)

lemma init_first_row:
  "fold (\<lambda>j m. setAt m 0 (setAt (m ! 0) j j)) [0..<Suc k] (map (\<lambda>i. [i]) [0..<Suc n])
     = (map (\<lambda>i. [i]) [0..<Suc n])[0 := [0..<Suc k]]"
proof (induction k)
  case 0
  show ?case by (simp add: setAt_def upt_rec)
next
  case (Suc k)
  have "[0..<Suc (Suc k)] = [0..<Suc k] @ [Suc k]" by simp
  then show ?case
    using Suc by (simp only: fold_append o_apply) (simp add: setAt_def nth_Cons' upt_rec [of 0 "Suc n"])
qed

lemma levRows_init:
  "(map (\<lambda>i. [i]) [0..<Suc (length str2)])[0 := [0..<Suc (length str1)]] = levRows str1 str2 1"
  by (rule nth_equalityI) (auto simp: levRows_def levRow_def nth_list_update map_upt_eqI simp del: upt_Suc)

lemma levPartial_1:
  assumes "1 \<le> i" "i \<le> length str2"
  shows "levPartial str1 str2 i 1 = levRows str1 str2 i"
  using assms
  by (intro nth_equalityI) (auto simp: levPartial_def levRows_def levRow_def nth_list_update simp del: upt_Suc)

lemma levPartial_full:
  assumes "i \<le> length str2"
  shows "levPartial str1 str2 i (Suc (length str1)) = levRows str1 str2 (Suc i)"
  using assms
  by (intro nth_equalityI) (auto simp: levPartial_def levRows_def levRow_def nth_list_update simp del: upt_Suc)

lemma levPartial_step:
  assumes i: "1 \<le> i" "i \<le> length str2" and j: "1 \<le> j" "j \<le> length str1"
  shows "setAt (levPartial str1 str2 i j) i
           (setAt (levPartial str1 str2 i j ! i) j (cellValue str1 str2 (levPartial str1 str2 i j) i j))
         = levPartial str1 str2 i (Suc j)"
proof -
  let ?m = "levPartial str1 str2 i j"
  have len: "length ?m = Suc (length str2)"
    by (simp add: levPartial_def levRows_def)
  have row: "?m ! i = map (levCell str1 str2 i) [0..<j]"
    using i by (simp add: levPartial_def levRows_def)
  have prev: "?m ! (i - 1) = map (levCell str1 str2 (i - 1)) [0..<Suc (length str1)]"
    using i by (simp add: levPartial_def levRows_def levRow_def nth_list_update del: upt_Suc)
  have d: "?m ! (i - 1) ! (j - 1) = levCell str1 str2 (i - 1) (j - 1)"
    using j by (simp only: prev) (simp del: upt_Suc)
  have u: "?m ! (i - 1) ! j = levCell str1 str2 (i - 1) j"
    using j by (simp only: prev) (simp del: upt_Suc)
  have l: "?m ! i ! (j - 1) = levCell str1 str2 i (j - 1)"
    using j by (simp only: row) simp
  have ij: "i \<noteq> 0" "j \<noteq> 0"
    using i j by auto
  have v: "cellValue str1 str2 ?m i j = levCell str1 str2 i j"
    unfolding cellValue_def d u l
    by (subst (3) levCell.simps) (simp only: ij if_False)
  have "setAt (?m ! i) j (cellValue str1 str2 ?m i j) = map (levCell str1 str2 i) [0..<Suc j]"
    by (simp add: row v setAt_def)
  then show ?thesis
    using i len by (simp add: setAt_def) (simp add: levPartial_def)
qed

lemma inner_loop:
  assumes i: "1 \<le> i" "i \<le> length str2" and k: "k \<le> length str1"
  shows "fold (\<lambda>j m. setAt m i (setAt (m ! i) j (cellValue str1 str2 m i j))) [1..<Suc k]
           (levPartial str1 str2 i 1)
         = levPartial str1 str2 i (Suc k)"
  using k
proof (induction k)
  case 0
  show ?case by simp
next
  case (Suc k)
  have "[1..<Suc (Suc k)] = [1..<Suc k] @ [Suc k]" by simp
  then show ?case
    using Suc i levPartial_step [of i str2 "Suc k" str1]
    by (simp only: fold_append o_apply) simp
qed

lemma outer_loop:
  assumes "k \<le> length str2"
  shows "fold (\<lambda>i m. fold (\<lambda>j m. setAt m i (setAt (m ! i) j (cellValue str1 str2 m i j)))
                        [1..<Suc (length str1)] m)
           [1..<Suc k] (levRows str1 str2 1)
         = levRows str1 str2 (Suc k)"
  using assms
proof (induction k)
  case 0
  show ?case by simp
next
  case (Suc k)
  have "[1..<Suc (Suc k)] = [1..<Suc k] @ [Suc k]" by simp
  moreover have "fold (\<lambda>j m. setAt m (Suc k) (setAt (m ! Suc k) j (cellValue str1 str2 m (Suc k) j)))
                   [1..<Suc (length str1)] (levRows str1 str2 (Suc k))
                 = levRows str1 str2 (Suc (Suc k))"
  proof -
    have k1: "1 \<le> Suc k" by simp
    show ?thesis
      using inner_loop [OF k1 Suc.prems order_refl, of str1]
      by (simp only: levPartial_1 [OF k1 Suc.prems] levPartial_full [OF Suc.prems])
  qed
  ultimately show ?case
    using Suc by (simp only: fold_append o_apply) (simp del: upt_Suc)
qed

lemma levenshteinDistance_levCell:
  "levenshteinDistance str1 str2 = levCell str1 str2 (length str2) (length str1)"
proof -
  have "levenshteinDistance str1 str2 = levRows str1 str2 (Suc (length str2)) ! length str2 ! length str1"
    unfolding levenshteinDistance_def Let_def
    by (simp only: init_rows init_first_row levRows_init outer_loop [OF order_refl])
  also have "\<dots> = levCell str1 str2 (length str2) (length str1)"
    by (simp add: levRows_def levRow_def del: upt_Suc)
  finally show ?thesis .
qed

text \<open>
  C8: the Levenshtein distance is symmetric, \<open>distance(a, b) = distance(b, a)\<close> for all
  strings, and \<open>distance(a, a) = 0\<close>.
\<close>

theorem levenshteinDistance_symmetric:
  "levenshteinDistance a b = levenshteinDistance b a \<and> levenshteinDistance a a = 0"
  by (simp add: levenshteinDistance_levCell levCell_diag levCell_sym [of a b "length b" "length a"])

section \<open>Properties of the character scan and of the matcher\<close>

declare fuzzyScan.simps [simp del]

lemma fuzzyScan_done:
  "\<not> (ti < length t \<and> qi < length q) \<Longrightarrow> fuzzyScan q t ti sc ms qi l c = (sc, ms, qi)"
  by (subst fuzzyScan.simps) (rule if_not_P)

lemma fuzzyScan_skip:
  "ti < length t \<Longrightarrow> qi < length q \<Longrightarrow> t ! ti \<noteq> q ! qi \<Longrightarrow>
   fuzzyScan q t ti sc ms qi l c = fuzzyScan q t (Suc ti) sc ms qi l c"
  by (subst fuzzyScan.simps) simp

lemma fuzzyScan_take:
  "ti < length t \<Longrightarrow> qi < length q \<Longrightarrow> t ! ti = q ! qi \<Longrightarrow>
   fuzzyScan q t ti sc ms qi l c =
     fuzzyScan q t (Suc ti) (scanScore q t ti sc l c)
       (ms @ [\<lparr>start = ti, matchEnd = ti + 1, matchType = ''character'', queryIndex = Some qi\<rparr>])
       (Suc qi) (int ti) (if int ti = l + 1 then c + 1 else 0)"
  by (subst fuzzyScan.simps) (simp add: Let_def scanScore_def)

lemma scanScore_ge: "sc + 0.8 / of_nat (length q) \<le> scanScore q t ti sc l c"
  by (simp add: scanScore_def Let_def)

lemma fuzzyScan_subseq:
  "qi \<le> length q \<Longrightarrow>
   (snd (snd (fuzzyScan q t ti sc ms qi l c)) = length q) = subseq (drop qi q) (drop ti t)"
proof (induction "length t - ti" arbitrary: ti sc ms qi l c)
  case 0
  then have "drop ti t = []" by simp
  with 0 show ?case
    by (cases "qi = length q") (auto simp: fuzzyScan_done)
next
  case (Suc n)
  then have ti: "ti < length t" by simp
  have dt: "drop ti t = t ! ti # drop (Suc ti) t"
    using ti by (simp add: Cons_nth_drop_Suc)
  show ?case
  proof (cases "qi < length q")
    case False
    with Suc.prems show ?thesis by (simp add: fuzzyScan_done)
  next
    case True
    have dq: "drop qi q = q ! qi # drop (Suc qi) q"
      using True by (simp add: Cons_nth_drop_Suc)
    have n: "n = length t - Suc ti" using Suc.hyps(2) by simp
    show ?thesis
    proof (cases "t ! ti = q ! qi")
      case True
      have "Suc qi \<le> length q" using \<open>qi < length q\<close> by simp
      from Suc.hyps(1) [OF n this] show ?thesis
        using True ti \<open>qi < length q\<close> by (simp add: fuzzyScan_take dt dq)
    next
      case False
      from Suc.hyps(1) [OF n Suc.prems] show ?thesis
        using False ti \<open>qi < length q\<close> by (simp add: fuzzyScan_skip dt dq)
    qed
  qed
qed

lemma fuzzyScan_spans:
  "qi \<le> length q \<Longrightarrow> fuzzyScan q t ti sc ms qi l c = (sc', ms', qi') \<Longrightarrow>
   \<exists>new. ms' = ms @ new \<and> length new = qi' - qi \<and> qi \<le> qi' \<and> list_all (charSpan (length t)) new
     \<and> sorted_wrt (\<lambda>a b. matchEnd a \<le> start b) new \<and> list_all (\<lambda>m. ti \<le> start m) new
     \<and> sc + of_nat (qi' - qi) * (0.8 / of_nat (length q)) \<le> sc'"
proof (induction "length t - ti" arbitrary: ti sc ms qi l c)
  case 0
  then show ?case by (simp add: fuzzyScan_done)
next
  case (Suc n)
  then have ti: "ti < length t" by simp
  have n: "n = length t - Suc ti" using Suc.hyps(2) by simp
  show ?case
  proof (cases "qi < length q")
    case False
    with Suc.prems show ?thesis by (simp add: fuzzyScan_done)
  next
    case True
    show ?thesis
    proof (cases "t ! ti = q ! qi")
      case False
      with Suc.prems ti True have "fuzzyScan q t (Suc ti) sc ms qi l c = (sc', ms', qi')"
        by (simp add: fuzzyScan_skip)
      from Suc.hyps(1) [OF n Suc.prems(1) this] obtain new where
        "ms' = ms @ new" "length new = qi' - qi" "qi \<le> qi'" "list_all (charSpan (length t)) new"
        "sorted_wrt (\<lambda>a b. matchEnd a \<le> start b) new" "list_all (\<lambda>m. Suc ti \<le> start m) new"
        "sc + of_nat (qi' - qi) * (0.8 / of_nat (length q)) \<le> sc'"
        by blast
      then show ?thesis
        by (auto simp: list_all_iff intro!: exI [of _ new])
    next
      case same: True
      let ?m = "\<lparr>start = ti, matchEnd = ti + 1, matchType = ''character'', queryIndex = Some qi\<rparr>"
      let ?sc = "scanScore q t ti sc l c"
      from Suc.prems ti True same
      have run: "fuzzyScan q t (Suc ti) ?sc (ms @ [?m]) (Suc qi) (int ti)
                   (if int ti = l + 1 then c + 1 else 0) = (sc', ms', qi')"
        by (simp add: fuzzyScan_take)
      have "Suc qi \<le> length q" using True by simp
      from Suc.hyps(1) [OF n this run] obtain new where new:
        "ms' = (ms @ [?m]) @ new" "length new = qi' - Suc qi" "Suc qi \<le> qi'"
        "list_all (charSpan (length t)) new"
        "sorted_wrt (\<lambda>a b. matchEnd a \<le> start b) new" "list_all (\<lambda>m. Suc ti \<le> start m) new"
        "?sc + of_nat (qi' - Suc qi) * (0.8 / of_nat (length q)) \<le> sc'"
        by blast
      have sc: "sc + of_nat (qi' - qi) * (0.8 / of_nat (length q)) \<le> sc'"
      proof -
        have "of_nat (qi' - qi) = (1 :: rat) + of_nat (qi' - Suc qi)"
          using new(3) by (simp add: of_nat_diff)
        then have "sc + of_nat (qi' - qi) * (0.8 / of_nat (length q))
                   = (sc + 0.8 / of_nat (length q)) + of_nat (qi' - Suc qi) * (0.8 / of_nat (length q))"
          by (simp only: distrib_right mult_1 add.assoc)
        also have "\<dots> \<le> ?sc + of_nat (qi' - Suc qi) * (0.8 / of_nat (length q))"
          using scanScore_ge [of sc q t ti l c] by simp
        finally show ?thesis using new(7) by simp
      qed
      show ?thesis
        using new(1-6) sc ti
        by (intro exI [of _ "?m # new"]) (auto simp: list_all_iff charSpan_def)
    qed
  qed
qed


lemma mergeFrom_not_Nil: "mergeFrom cur ms \<noteq> []"
  by (induction ms arbitrary: cur) auto

lemma mergeFrom_matchType:
  "list_all (\<lambda>m. matchType m = ty) (cur # ms) \<Longrightarrow> list_all (\<lambda>m. matchType m = ty) (mergeFrom cur ms)"
  by (induction ms arbitrary: cur) auto

lemma mergeConsecutiveMatches_Nil: "(mergeConsecutiveMatches ms = []) = (ms = [])"
  by (auto simp: mergeConsecutiveMatches_def mergeFrom_not_Nil split: list.splits)

lemma mergeConsecutiveMatches_matchType:
  "list_all (\<lambda>m. matchType m = ty) ms \<Longrightarrow>
   list_all (\<lambda>m. matchType m = ty) (mergeConsecutiveMatches ms)"
  unfolding mergeConsecutiveMatches_def
  using mergeFrom_matchType [of ty]
  by (auto split: list.splits)

text \<open>What the scan of \<open>fuzzyCharacterMatch\<close> returns.\<close>

lemma fuzzyScan_initial:
  assumes "fuzzyScan q t 0 0 [] 0 (- 1) 0 = (sc, ms, qi)"
  shows "(qi = length q) = subseq q t"
    and "length ms = qi"
    and "list_all (charSpan (length t)) ms"
    and "sorted_wrt (\<lambda>a b. matchEnd a \<le> start b) ms"
    and "of_nat qi * (0.8 / of_nat (length q)) \<le> sc"
proof -
  show "(qi = length q) = subseq q t"
    using fuzzyScan_subseq [of 0 q t 0 0 "[]" "- 1" 0] assms by simp
  from fuzzyScan_spans [OF _ assms] obtain new where
    "ms = [] @ new" "length new = qi - 0" "list_all (charSpan (length t)) new"
    "sorted_wrt (\<lambda>a b. matchEnd a \<le> start b) new"
    "0 + of_nat (qi - 0) * (0.8 / of_nat (length q)) \<le> sc"
    by auto
  then show "length ms = qi" "list_all (charSpan (length t)) ms"
    "sorted_wrt (\<lambda>a b. matchEnd a \<le> start b) ms"
    "of_nat qi * (0.8 / of_nat (length q)) \<le> sc"
    by simp_all
qed

lemma fuzzyCharacterMatch_fails:
  assumes "\<not> subseq q t"
  shows "fuzzyCharacterMatch fs q t = \<lparr>score = 0, matches = []\<rparr>"
proof -
  obtain sc ms qi where run: "fuzzyScan q t 0 0 [] 0 (- 1) 0 = (sc, ms, qi)"
    by (cases "fuzzyScan q t 0 0 [] 0 (- 1) 0") auto
  from fuzzyScan_initial(1) [OF run] assms have "qi \<noteq> length q" by simp
  then show ?thesis
    by (simp add: fuzzyCharacterMatch_def run)
qed

lemma penalty_positive:
  fixes sc :: rat
  assumes "0 < sc"
  shows "0 < sc * max (1 / 10) f + max 0 b" and "0 < sc / 10 + max 0 b" and "0 < sc + max 0 b"
proof -
  have "0 < sc * max (1 / 10) f"
    using assms by (intro mult_pos_pos) (simp_all add: max_def)
  then show "0 < sc * max (1 / 10) f + max 0 b"
    by (rule add_pos_nonneg) simp
  have "0 < sc / 10" using assms by simp
  then show "0 < sc / 10 + max 0 b"
    by (rule add_pos_nonneg) simp
  show "0 < sc + max 0 b"
    using assms by (rule add_pos_nonneg) simp
qed

lemma fuzzyCharacterMatch_succeeds:
  assumes "q \<noteq> []" "subseq q t"
  shows "0 < score (fuzzyCharacterMatch fs q t)"
    and "matches (fuzzyCharacterMatch fs q t) \<noteq> []"
    and "list_all (\<lambda>m. matchType m = ''character'') (matches (fuzzyCharacterMatch fs q t))"
proof -
  obtain sc ms qi where run: "fuzzyScan q t 0 0 [] 0 (- 1) 0 = (sc, ms, qi)"
    by (cases "fuzzyScan q t 0 0 [] 0 (- 1) 0") auto
  note r = fuzzyScan_initial [OF run]
  from r(1) assms have qi: "qi = length q" by simp
  have "of_nat (length q) * (0.8 / of_nat (length q)) = (0.8 :: rat)"
    using assms(1) by simp
  with r(5) qi have sc: "0 < sc" by simp
  from r(2) qi assms(1) have ms: "ms \<noteq> []" by auto
  have ty: "list_all (\<lambda>m. matchType m = ''character'') ms"
    using r(3) by (simp add: list_all_iff charSpan_def)
  show "0 < score (fuzzyCharacterMatch fs q t)"
    by (simp add: fuzzyCharacterMatch_def run qi Let_def penalty_positive [OF sc])
  show "matches (fuzzyCharacterMatch fs q t) \<noteq> []"
    using ms by (simp add: fuzzyCharacterMatch_def run qi Let_def mergeConsecutiveMatches_Nil)
  show "list_all (\<lambda>m. matchType m = ''character'') (matches (fuzzyCharacterMatch fs q t))"
    using mergeConsecutiveMatches_matchType [OF ty]
    by (simp add: fuzzyCharacterMatch_def run qi Let_def)
qed

lemma fuzzyMatch_third_tier:
  assumes "indexOf t q = None" "wordBoundaryIndex t q = None" "length q \<le> length t"
  shows "fuzzyMatch fs q t = fuzzyCharacterMatch fs q t"
  using assms by (simp add: fuzzyMatch_def)

lemma fuzzyMatch_longer:
  "length t < length q \<Longrightarrow> fuzzyMatch fs q t = \<lparr>score = 0, matches = []\<rparr>"
  by (simp add: fuzzyMatch_def)

lemma subseq_length: "subseq q t \<Longrightarrow> length q \<le> length t"
  by (rule list_emb_length)

lemma fuzzyCharacterMatch_matchType:
  "list_all (\<lambda>m. matchType m = ''character'') (matches (fuzzyCharacterMatch fs q t))"
proof -
  obtain sc ms qi where run: "fuzzyScan q t 0 0 [] 0 (- 1) 0 = (sc, ms, qi)"
    by (cases "fuzzyScan q t 0 0 [] 0 (- 1) 0") auto
  have "list_all (\<lambda>m. matchType m = ''character'') ms"
    using fuzzyScan_initial(3) [OF run] by (simp add: list_all_iff charSpan_def)
  from mergeConsecutiveMatches_matchType [OF this] show ?thesis
    by (simp add: fuzzyCharacterMatch_def run Let_def)
qed

lemma fuzzyMatch_matchType:
  "list_all (\<lambda>m. matchType m \<in> set [''exact'', ''word-boundary'', ''character''])
     (matches (fuzzyMatch fs q t))"
proof -
  have "list_all (\<lambda>m. matchType m \<in> set [''exact'', ''word-boundary'', ''character''])
          (matches (fuzzyCharacterMatch fs q t))"
    using fuzzyCharacterMatch_matchType [of fs q t] by (simp add: list_all_iff)
  then show ?thesis
    by (simp add: fuzzyMatch_def Let_def split: option.splits)
qed

lemma ngx_nginx_eval:
  "fuzzyMatch defaultFuzzySearch ''ngx'' ''nginx'' =
     \<lparr>score = 7 / 10,
      matches = [\<lparr>start = 0, matchEnd = 2, matchType = ''character'', queryIndex = Some 0\<rparr>,
                 \<lparr>start = 4, matchEnd = 5, matchType = ''character'', queryIndex = Some 2\<rparr>]\<rparr>"
  by code_simp

lemma nginix_nginx_eval:
  "fuzzyMatch defaultFuzzySearch ''nginix'' ''nginx'' = \<lparr>score = 0, matches = []\<rparr>"
  by code_simp

lemma ab_axb_eval:
  "indexOf ''axb'' ''ab'' = None \<and> wordBoundaryIndex ''axb'' ''ab'' = None \<and>
   fuzzyMatch defaultFuzzySearch ''ab'' ''axb'' =
     \<lparr>score = 41 / 50,
      matches = [\<lparr>start = 0, matchEnd = 1, matchType = ''character'', queryIndex = Some 0\<rparr>,
                 \<lparr>start = 2, matchEnd = 3, matchType = ''character'', queryIndex = Some 1\<rparr>]\<rparr>"
  by code_simp

lemma nginix_distance_eval:
  "levenshteinDistance ''nginix'' ''nginx'' = 1 \<and> maxEditDistance ''nginix'' ''nginx'' = 1 \<and>
   editDistanceAccepts ''nginix'' ''nginx''"
  by code_simp

section \<open>C4: the character tier must consume the entire query\<close>

text \<open>
  C4, as the spec states it, fails at its own example: the characters of \<open>ngx\<close> do
  occur in \<open>nginx\<close>, in order, so the character tier succeeds and the matcher reports
  a match for that field.
\<close>

theorem ngx_matches_nginx:
  "fuzzyMatch defaultFuzzySearch ''ngx'' ''nginx'' =
     \<lparr>score = 7 / 10,
      matches = [\<lparr>start = 0, matchEnd = 2, matchType = ''character'', queryIndex = Some 0\<rparr>,
                 \<lparr>start = 4, matchEnd = 5, matchType = ''character'', queryIndex = Some 2\<rparr>]\<rparr>"
  by (rule ngx_nginx_eval)

text \<open>
  C4, amended: the character tier reports a match only when the scan consumes the
  entire query, that is when the query is a subsequence of the field; otherwise it
  fails entirely, with score 0 and no span. A non-empty query that is a subsequence of
  the field is matched, with a positive score and at least one span. In the example,
  \<open>ngx\<close> is a subsequence of \<open>nginx\<close> and the matcher reports the match of score 0.7
  with the spans [0, 2) and [4, 5).
\<close>

theorem fuzzyCharacterMatch_entire_query:
  "(\<not> subseq q t \<longrightarrow> fuzzyCharacterMatch fs q t = \<lparr>score = 0, matches = []\<rparr>)
   \<and> (q \<noteq> [] \<and> subseq q t \<longrightarrow>
        0 < score (fuzzyCharacterMatch fs q t) \<and> matches (fuzzyCharacterMatch fs q t) \<noteq> [])
   \<and> subseq ''ngx'' ''nginx''
   \<and> score (fuzzyMatch defaultFuzzySearch ''ngx'' ''nginx'') = 7 / 10
   \<and> map (\<lambda>m. (start m, matchEnd m)) (matches (fuzzyMatch defaultFuzzySearch ''ngx'' ''nginx''))
       = [(0, 2), (4, 5)]"
proof -
  have "subseq ''ngx'' ''nginx''" by simp
  then show ?thesis
    using fuzzyCharacterMatch_fails [of q t fs] fuzzyCharacterMatch_succeeds(1,2) [of q t fs]
    by (simp add: ngx_nginx_eval)
qed

theorem fuzzyCharacterMatch_entire_query_witness:
  "\<not> subseq ''ngz'' ''nginx''
   \<and> fuzzyCharacterMatch defaultFuzzySearch ''ngz'' ''nginx'' = \<lparr>score = 0, matches = []\<rparr>
   \<and> ''ngx'' \<noteq> [] \<and> subseq ''ngx'' ''nginx''
   \<and> 0 < score (fuzzyCharacterMatch defaultFuzzySearch ''ngx'' ''nginx'')
   \<and> matches (fuzzyCharacterMatch defaultFuzzySearch ''ngx'' ''nginx'') \<noteq> []"
proof -
  have n: "\<not> subseq ''ngz'' ''nginx''" by simp
  have y: "''ngx'' \<noteq> [] \<and> subseq ''ngx'' ''nginx''" by simp
  show ?thesis
    using n y
      fuzzyCharacterMatch_entire_query [of "''ngz''" "''nginx''" defaultFuzzySearch]
      fuzzyCharacterMatch_entire_query [of "''ngx''" "''nginx''" defaultFuzzySearch]
    by blast
qed

section \<open>C5: the typo \<open>nginix\<close>\<close>

text \<open>
  C5, as the spec states it, fails: \<open>fuzzyMatch\<close> gives up on a query that is longer
  than the field, so \<open>nginix\<close> against \<open>nginx\<close> is no match.
\<close>

theorem nginix_no_match:
  "fuzzyMatch defaultFuzzySearch ''nginix'' ''nginx'' = \<lparr>score = 0, matches = []\<rparr>"
  by (rule nginix_nginx_eval)

text \<open>
  C5, amended: the Levenshtein distance between \<open>nginix\<close> and \<open>nginx\<close> is 1, within
  the threshold \<open>floor(0.3 * max(6, 5)) = 1\<close> of the edit-distance test, but the
  matcher \<open>fuzzyMatch\<close> has no edit-distance tier: its spans are exact, word-boundary
  or character spans, and for a query longer than the field, as here, it reports no
  match.
\<close>

theorem fuzzyMatch_no_edit_distance_tier:
  "levenshteinDistance ''nginix'' ''nginx'' = 1
   \<and> maxEditDistance ''nginix'' ''nginx'' = 1
   \<and> editDistanceAccepts ''nginix'' ''nginx''
   \<and> (length t < length q \<longrightarrow> fuzzyMatch fs q t = \<lparr>score = 0, matches = []\<rparr>)
   \<and> list_all (\<lambda>m. matchType m \<in> set [''exact'', ''word-boundary'', ''character''])
       (matches (fuzzyMatch fs q t))"
  using nginix_distance_eval fuzzyMatch_longer [of t q fs] fuzzyMatch_matchType [of fs q t]
  by blast

theorem fuzzyMatch_no_edit_distance_tier_witness:
  "length ''nginx'' < length ''nginix''
   \<and> fuzzyMatch defaultFuzzySearch ''nginix'' ''nginx'' = \<lparr>score = 0, matches = []\<rparr>"
proof -
  have "length ''nginx'' < length ''nginix''" by simp
  then show ?thesis
    using fuzzyMatch_no_edit_distance_tier [of "''nginx''" "''nginix''" defaultFuzzySearch]
    by blast
qed

section \<open>C6: queries of two characters\<close>

text \<open>
  C6, as the spec states it, fails: the two-character query \<open>ab\<close> is found in \<open>axb\<close>
  neither by the exact tier nor by the word-boundary tier, and the matcher reports a
  character match.
\<close>

theorem two_character_fuzzy_match:
  "length ''ab'' = 2 \<and> indexOf ''axb'' ''ab'' = None \<and> wordBoundaryIndex ''axb'' ''ab'' = None \<and>
   fuzzyMatch defaultFuzzySearch ''ab'' ''axb'' =
     \<lparr>score = 41 / 50,
      matches = [\<lparr>start = 0, matchEnd = 1, matchType = ''character'', queryIndex = Some 0\<rparr>,
                 \<lparr>start = 2, matchEnd = 3, matchType = ''character'', queryIndex = Some 1\<rparr>]\<rparr>"
  using ab_axb_eval by simp

text \<open>
  C6, amended: the character tier is attempted whatever the length of the query. For
  every non-empty query, of length 2 in particular, that neither the exact tier nor the
  word-boundary tier finds, the matcher reports a character match, with a positive
  score, when the characters of the query occur in the field in order, and no match
  otherwise.
\<close>

theorem fuzzyMatch_character_tier_any_length:
  assumes "q \<noteq> []" "indexOf t q = None" "wordBoundaryIndex t q = None"
  shows "(subseq q t \<longrightarrow>
            0 < score (fuzzyMatch fs q t) \<and> matches (fuzzyMatch fs q t) \<noteq> [] \<and>
            list_all (\<lambda>m. matchType m = ''character'') (matches (fuzzyMatch fs q t)))
         \<and> (\<not> subseq q t \<longrightarrow> fuzzyMatch fs q t = \<lparr>score = 0, matches = []\<rparr>)"
proof (intro conjI impI)
  assume s: "subseq q t"
  then have "length q \<le> length t" by (rule subseq_length)
  then have eq: "fuzzyMatch fs q t = fuzzyCharacterMatch fs q t"
    using assms by (simp add: fuzzyMatch_third_tier)
  show "0 < score (fuzzyMatch fs q t)" "matches (fuzzyMatch fs q t) \<noteq> []"
    "list_all (\<lambda>m. matchType m = ''character'') (matches (fuzzyMatch fs q t))"
    unfolding eq using fuzzyCharacterMatch_succeeds [OF assms(1) s] by simp_all
next
  assume n: "\<not> subseq q t"
  show "fuzzyMatch fs q t = \<lparr>score = 0, matches = []\<rparr>"
  proof (cases "length q \<le> length t")
    case True
    then show ?thesis
      using assms n by (simp add: fuzzyMatch_third_tier fuzzyCharacterMatch_fails)
  next
    case False
    then show ?thesis by (simp add: fuzzyMatch_longer)
  qed
qed


theorem fuzzyMatch_character_tier_any_length_witness:
  "length ''ab'' = 2 \<and> ''ab'' \<noteq> [] \<and> indexOf ''axb'' ''ab'' = None
   \<and> wordBoundaryIndex ''axb'' ''ab'' = None \<and> subseq ''ab'' ''axb''
   \<and> 0 < score (fuzzyMatch defaultFuzzySearch ''ab'' ''axb'')
   \<and> matches (fuzzyMatch defaultFuzzySearch ''ab'' ''axb'') \<noteq> []"
proof -
  have h: "''ab'' \<noteq> []" "indexOf ''axb'' ''ab'' = None" "wordBoundaryIndex ''axb'' ''ab'' = None"
    using ab_axb_eval by simp_all
  have s: "subseq ''ab'' ''axb''" by simp
  show ?thesis
    using h s fuzzyMatch_character_tier_any_length [OF h, of defaultFuzzySearch]
    by simp
qed

section \<open>Properties of the string operations\<close>

lemma indexOfFrom_None: "(indexOfFrom i s q = None) = (\<not> sublist q s)"
  by (induction s arbitrary: i) (auto simp: sublist_Cons_right)

lemma indexOf_None: "(indexOf s q = None) = (\<not> sublist q s)"
  by (simp add: indexOf_def indexOfFrom_None)

lemma str_includes_sublist: "str_includes s q = sublist q s"
  by (simp add: str_includes_def indexOf_None)

lemma sublist_trim: "sublist (trim s) s"
proof -
  have "suffix (dropWhile isSpace (rev (dropWhile isSpace s))) (rev (dropWhile isSpace s))"
    by (rule suffix_dropWhile)
  then have "prefix (trim s) (dropWhile isSpace s)"
    by (simp add: trim_def suffix_to_prefix)
  then have "sublist (trim s) (dropWhile isSpace s)" by (rule prefix_imp_sublist)
  moreover have "sublist (dropWhile isSpace s) s"
    using suffix_dropWhile by (rule suffix_imp_sublist)
  ultimately show ?thesis by (rule sublist_order.order_trans)
qed

lemma sublist_map: "sublist a b \<Longrightarrow> sublist (map f a) (map f b)"
  by (auto simp: sublist_def) blast

lemma sublist_toLowerCase: "sublist a b \<Longrightarrow> sublist (toLowerCase a) (toLowerCase b)"
  by (simp add: toLowerCase_def sublist_map)

lemma toLowerCase_idem: "toLowerCase (toLowerCase s) = toLowerCase s"
  by (induction s) (auto simp: toLowerCase_def toLowerChar_def)

lemma length_toLowerCase [simp]: "length (toLowerCase s) = length s"
  by (simp add: toLowerCase_def)

lemma sublist_join: "d \<in> set parts \<Longrightarrow> sublist d (join parts)"
proof (induction parts rule: join.induct)
  case 1
  then show ?case by simp
next
  case (2 s)
  then show ?case by simp
next
  case (3 s t ss)
  show ?case
  proof (cases "d = s")
    case True
    then show ?thesis by simp
  next
    case False
    with 3 have "sublist d (join (t # ss))" by simp
    then have "sublist d ((s @ '' '') @ join (t # ss))"
      by (meson sublist_append_leftI sublist_order.order_trans)
    then show ?thesis by simp
  qed
qed

text \<open>The normalized query and its normal form are found wherever the lower-cased query is.\<close>

lemma sublist_normalized:
  "sublist (trim (toLowerCase q)) (toLowerCase q)"
  "sublist (trim (toLowerCase (trim (toLowerCase q)))) (toLowerCase q)"
proof -
  show a: "sublist (trim (toLowerCase q)) (toLowerCase q)" by (rule sublist_trim)
  have "sublist (toLowerCase (trim (toLowerCase q))) (toLowerCase (toLowerCase q))"
    using a by (rule sublist_toLowerCase)
  then have "sublist (toLowerCase (trim (toLowerCase q))) (toLowerCase q)"
    by (simp add: toLowerCase_idem)
  with sublist_trim show "sublist (trim (toLowerCase (trim (toLowerCase q)))) (toLowerCase q)"
    by (rule sublist_order.order_trans)
qed

section \<open>Properties of the normalization\<close>

lemma isSpace_toLowerChar [simp]: "isSpace (toLowerChar c) = isSpace c"
  by (auto simp: isSpace_def toLowerChar_def)

lemma toLowerCase_trim: "toLowerCase (trim s) = trim (toLowerCase s)"
proof -
  have "isSpace \<circ> toLowerChar = isSpace" by (rule ext) simp
  then show ?thesis
    by (simp add: toLowerCase_def trim_def rev_map dropWhile_map)
qed

lemma dropWhile_last: "dropWhile P xs \<noteq> [] \<Longrightarrow> last (dropWhile P xs) = last xs"
  by (induction xs) (auto split: if_splits)

lemma trim_ends:
  assumes "trim s \<noteq> []"
  shows "\<not> isSpace (hd (trim s))" "\<not> isSpace (last (trim s))"
proof -
  let ?y = "dropWhile isSpace s"
  let ?z = "dropWhile isSpace (rev ?y)"
  have t: "trim s = rev ?z" by (simp add: trim_def)
  with assms have z: "?z \<noteq> []" by simp
  then have y: "?y \<noteq> []" by (metis dropWhile.simps(1) rev.simps(1))
  have "\<not> isSpace (hd ?z)" using z by (rule hd_dropWhile)
  then show "\<not> isSpace (last (trim s))" using z by (simp add: t last_rev)
  have "last ?z = last (rev ?y)" using z by (rule dropWhile_last)
  also have "\<dots> = hd ?y" using y by (simp add: last_rev)
  finally have "hd (trim s) = hd ?y" using z by (simp add: t hd_rev)
  moreover have "\<not> isSpace (hd ?y)" using y by (rule hd_dropWhile)
  ultimately show "\<not> isSpace (hd (trim s))" by simp
qed

lemma trim_fixed:
  assumes "x \<noteq> []" "\<not> isSpace (hd x)" "\<not> isSpace (last x)"
  shows "trim x = x"
proof -
  have "dropWhile isSpace x = x" using assms(1,2) by (cases x) auto
  moreover have "dropWhile isSpace (rev x) = rev x"
    using assms(1,3) by (cases "rev x") (auto simp: last_rev [symmetric] hd_rev)
  ultimately show ?thesis by (simp add: trim_def)
qed

lemma trim_idem: "trim (trim s) = trim s"
proof (cases "trim s = []")
  case True
  have "trim [] = []" by (simp add: trim_def)
  with True show ?thesis by simp
next
  case False
  then show ?thesis using trim_ends [OF False] by (intro trim_fixed)
qed

lemma normalize_idem:
  "trim (toLowerCase (trim (toLowerCase q))) = trim (toLowerCase q)"
  by (simp add: toLowerCase_trim toLowerCase_idem trim_idem)

section \<open>Properties of the keyword score\<close>

lemma fold_bonus_ge:
  fixes s :: rat
  assumes "0 \<le> b"
  shows "s \<le> fold (\<lambda>x s. if P x then s + b else s) xs s"
proof (induction xs arbitrary: s)
  case Nil
  show ?case by simp
next
  case (Cons x xs)
  have "s \<le> (if P x then s + b else s)" using assms by simp
  also have "\<dots> \<le> fold (\<lambda>x s. if P x then s + b else s) xs (if P x then s + b else s)"
    by (rule Cons.IH)
  finally show ?case by simp
qed

lemma fold_bonus_member:
  fixes s :: rat
  assumes "0 \<le> b" "x \<in> set xs" "P x"
  shows "s + b \<le> fold (\<lambda>x s. if P x then s + b else s) xs s"
  using assms(2)
proof (induction xs arbitrary: s)
  case Nil
  then show ?case by simp
next
  case (Cons y ys)
  show ?case
  proof (cases "P y")
    case True
    have "s + b \<le> fold (\<lambda>x s. if P x then s + b else s) ys (s + b)"
      using assms(1) by (rule fold_bonus_ge)
    with True show ?thesis by simp
  next
    case False
    with Cons assms(3) have "x \<in> set ys" by auto
    from Cons.IH [OF this] False show ?thesis by simp
  qed
qed

lemma calculateSearchScore_le: "calculateSearchScore it q terms = Inr kw \<Longrightarrow> kw \<le> 2"
  by (auto simp: calculateSearchScore_def Let_def split: sum.splits)

lemma searchableText_displayName:
  assumes "displayName it = Some d" "d \<noteq> []"
  shows "sublist (toLowerCase d) (searchableText it)"
proof -
  have "d \<in> set (map the (filter truthy
       ([name it, displayName it, description it, category it, language it]
        @ map Some (case topics it of None \<Rightarrow> [] | Some ts \<Rightarrow> ts))))"
    using assms by (auto simp: truthy_def image_iff)
  then show ?thesis
    unfolding searchableText_def by (intro sublist_toLowerCase sublist_join)
qed

lemma calculateSearchScore_Inr:
  assumes "calculateSearchScore it q terms = Inr kw"
  shows "\<exists>boost. nameBoost it q = Inr boost \<and>
           kw = min (fold (\<lambda>word s. if str_includes word (toLowerCase q) then s + 0.5 else s)
                       (splitWhitespace (searchableText it))
                       (fold (\<lambda>term s. if str_includes (searchableText it) term then s + 0.7 else s)
                          terms
                          (if str_includes (searchableText it) (toLowerCase q) then 1 else 0))
                     + (if boost then 0.8 else 0) + (if stars it > 10 then 0.1 else 0)) 2"
proof (cases "nameBoost it q")
  case (Inl e)
  with assms show ?thesis by (simp add: calculateSearchScore_def Let_def)
next
  case (Inr boost)
  with assms have "kw = min (fold (\<lambda>word s. if str_includes word (toLowerCase q) then s + 0.5 else s)
                       (splitWhitespace (searchableText it))
                       (fold (\<lambda>term s. if str_includes (searchableText it) term then s + 0.7 else s)
                          terms
                          (if str_includes (searchableText it) (toLowerCase q) then 1 else 0))
                     + (if boost then 0.8 else 0) + (if stars it > 10 then 0.1 else 0)) 2"
    by (cases boost; cases "stars it > 10"; cases "str_includes (searchableText it) (toLowerCase q)")
       (simp_all add: calculateSearchScore_def Let_def)
  with Inr show ?thesis by blast
qed

lemma calculateSearchScore_exact:
  assumes d: "displayName it = Some d" "toLowerCase d = toLowerCase q" and q: "q \<noteq> []"
    and t: "term \<in> set terms" "sublist term (toLowerCase q)"
    and r: "calculateSearchScore it q terms = Inr kw"
  shows "kw = 2"
proof -
  have "length d = length q" using d(2) by (metis length_toLowerCase)
  with q have dne: "d \<noteq> []" by auto
  have intxt: "sublist (toLowerCase q) (searchableText it)"
    using searchableText_displayName [OF d(1) dne] d(2) by simp
  then have inc: "str_includes (searchableText it) (toLowerCase q)"
    by (simp add: str_includes_sublist)
  have "sublist term (searchableText it)"
    using t(2) intxt by (rule sublist_order.order_trans)
  then have tinc: "str_includes (searchableText it) term"
    by (simp add: str_includes_sublist)
  let ?s2 = "fold (\<lambda>term s. if str_includes (searchableText it) term then s + 0.7 else s) terms (1 :: rat)"
  let ?s3 = "fold (\<lambda>word s. if str_includes word (toLowerCase q) then s + 0.5 else s)
               (splitWhitespace (searchableText it)) ?s2"
  have s2: "1 + 0.7 \<le> ?s2"
    using fold_bonus_member [of "0.7" "term" terms "\<lambda>t. str_includes (searchableText it) t" 1]
      t(1) tinc by simp
  have s3: "?s2 \<le> ?s3"
    using fold_bonus_ge [of "0.5" ?s2 "\<lambda>w. str_includes w (toLowerCase q)"
        "splitWhitespace (searchableText it)"]
    by simp
  from calculateSearchScore_Inr [OF r] obtain boost where
    b: "nameBoost it q = Inr boost" and
    kw0: "kw = min (fold (\<lambda>word s. if str_includes word (toLowerCase q) then s + 0.5 else s)
                       (splitWhitespace (searchableText it))
                       (fold (\<lambda>term s. if str_includes (searchableText it) term then s + 0.7 else s)
                          terms
                          (if str_includes (searchableText it) (toLowerCase q) then 1 else 0))
                     + (if boost then 0.8 else 0) + (if stars it > 10 then 0.1 else 0)) 2"
    by blast
  have kw: "kw = min (?s3 + (if boost then 0.8 else 0) + (if stars it > 10 then 0.1 else 0)) 2"
    unfolding kw0 by (simp only: inc if_True)
  have "str_includes (toLowerCase d) (toLowerCase q)"
    by (simp add: d(2) str_includes_sublist)
  with b d(1) have "boost"
    by (auto simp: nameBoost_def split: option.splits if_splits)
  then have "2 \<le> ?s3 + (if boost then 0.8 else 0) + (if stars it > 10 then 0.1 else 0)"
    using s2 s3 by simp
  then have "min (?s3 + (if boost then 0.8 else 0) + (if stars it > 10 then 0.1 else 0)) 2 = 2"
    by (rule min_absorb2)
  then show ?thesis unfolding kw .
qed

section \<open>Properties of the best fuzzy match\<close>

lemma fuzzyCharacterMatch_score_le: "score (fuzzyCharacterMatch fs q t) \<le> 1"
  by (auto simp: fuzzyCharacterMatch_def Let_def split: prod.splits)

lemma fuzzyMatch_score_le: "score (fuzzyMatch fs q t) \<le> 1"
  by (simp add: fuzzyMatch_def Let_def fuzzyCharacterMatch_score_le split: option.splits)

lemma fuzzyMatch_exact:
  assumes "sublist q t"
  shows "score (fuzzyMatch fs q t) = 1"
proof -
  from assms have "length q \<le> length t" by (rule sublist_length_le)
  moreover from assms obtain i where "indexOf t q = Some i"
    using indexOf_None [of t q] by auto
  ultimately show ?thesis by (simp add: fuzzyMatch_def)
qed

lemma termStep_le: "fst best \<le> 1 \<Longrightarrow> fst (termStep fs k v term best) \<le> 1"
  using fuzzyMatch_score_le [of fs "term" "toLowerCase v"]
  by (auto simp: termStep_def Let_def split: prod.splits)

lemma termStep_top: "fst best = 1 \<Longrightarrow> fst (termStep fs k v term best) = 1"
  using fuzzyMatch_score_le [of fs "term" "toLowerCase v"]
  by (auto simp: termStep_def Let_def split: prod.splits)

lemma fold_termStep_le: "fst best \<le> 1 \<Longrightarrow> fst (fold (termStep fs k v) terms best) \<le> 1"
  by (induction terms arbitrary: best) (simp_all add: termStep_le)

lemma fold_termStep_top: "fst best = 1 \<Longrightarrow> fst (fold (termStep fs k v) terms best) = 1"
  by (induction terms arbitrary: best) (simp_all add: termStep_top)

lemma keyStep_directStep:
  "keyStep fs it nq terms k best =
     (if getValue it k = [] then best
      else fold (termStep fs k (getValue it k)) terms (directStep fs nq k (getValue it k) best))"
  by (cases best) (simp add: keyStep_def directStep_def Let_def)

lemma directStep_le: "fst best \<le> 1 \<Longrightarrow> fst (directStep fs nq k v best) \<le> 1"
  using fuzzyMatch_score_le [of fs nq "toLowerCase v"]
  by (auto simp: directStep_def split: prod.splits)

lemma directStep_top: "fst best = 1 \<Longrightarrow> fst (directStep fs nq k v best) = 1"
  using fuzzyMatch_score_le [of fs nq "toLowerCase v"]
  by (auto simp: directStep_def split: prod.splits)

lemma directStep_exact:
  assumes "fst best \<le> 1" "sublist nq (toLowerCase v)"
  shows "fst (directStep fs nq k v best) = 1"
  using assms fuzzyMatch_exact [OF assms(2), of fs]
  by (auto simp: directStep_def split: prod.splits)

lemma keyStep_le: "fst best \<le> 1 \<Longrightarrow> fst (keyStep fs it nq terms k best) \<le> 1"
  by (simp add: keyStep_directStep fold_termStep_le directStep_le)

lemma keyStep_top: "fst best = 1 \<Longrightarrow> fst (keyStep fs it nq terms k best) = 1"
  by (simp add: keyStep_directStep fold_termStep_top directStep_top)

lemma keyStep_exact:
  assumes "fst best \<le> 1" "getValue it k \<noteq> []" "sublist nq (toLowerCase (getValue it k))"
  shows "fst (keyStep fs it nq terms k best) = 1"
  using assms by (simp add: keyStep_directStep fold_termStep_top directStep_exact)

lemma fold_keyStep_le:
  "fst best \<le> 1 \<Longrightarrow> fst (fold (keyStep fs it nq terms) ks best) \<le> 1"
  by (induction ks arbitrary: best) (simp_all add: keyStep_le)

lemma fold_keyStep_top:
  "fst best = 1 \<Longrightarrow> fst (fold (keyStep fs it nq terms) ks best) = 1"
  by (induction ks arbitrary: best) (simp_all add: keyStep_top)

lemma fold_keyStep_exact:
  assumes "k \<in> set ks" "getValue it k \<noteq> []" "sublist nq (toLowerCase (getValue it k))"
  shows "fst best \<le> 1 \<Longrightarrow> fst (fold (keyStep fs it nq terms) ks best) = 1"
  using assms(1)
proof (induction ks arbitrary: best)
  case Nil
  then show ?case by simp
next
  case (Cons a ks)
  show ?case
  proof (cases "a = k")
    case True
    have "fst (keyStep fs it nq terms k best) = 1"
      using Cons.prems(1) assms(2,3) by (rule keyStep_exact)
    with True show ?thesis by (simp add: fold_keyStep_top)
  next
    case False
    with Cons.prems have "k \<in> set ks" by simp
    moreover have "fst (keyStep fs it nq terms a best) \<le> 1"
      using Cons.prems(1) by (rule keyStep_le)
    ultimately show ?thesis using Cons.IH by simp
  qed
qed

lemma scoreItem_Some:
  assumes "scoreItem fs q nq terms i it = Inr (Some r)"
  shows "\<exists>kw. calculateSearchScore it q terms = Inr kw
           \<and> score r = kw + fst (fold (keyStep fs it nq terms) (keys fs) (0, [], None))
           \<and> item r = it"
  using assms
  by (auto simp: scoreItem_def Let_def split: sum.splits prod.splits if_splits)

lemma scoreItem_None:
  assumes "scoreItem fs q nq terms i it = Inr None"
  shows "\<exists>kw. calculateSearchScore it q terms = Inr kw
           \<and> kw + fst (fold (keyStep fs it nq terms) (keys fs) (0, [], None)) < threshold fs"
  using assms
  by (auto simp: scoreItem_def Let_def split: sum.splits prod.splits if_splits)

lemma scoreItem_score_le:
  assumes "scoreItem fs q nq terms i it = Inr (Some r)"
  shows "score r \<le> 3"
proof -
  from scoreItem_Some [OF assms] obtain kw where
    kw: "calculateSearchScore it q terms = Inr kw" and
    s: "score r = kw + fst (fold (keyStep fs it nq terms) (keys fs) (0, [], None))"
    by blast
  have "kw \<le> 2" using kw by (rule calculateSearchScore_le)
  moreover have "fst (fold (keyStep fs it nq terms) (keys fs) (0, [], None)) \<le> 1"
    by (rule fold_keyStep_le) simp
  ultimately show ?thesis using s by simp
qed

lemma scoreItems_results:
  assumes "scoreItems fs q nq terms i items = Inr rs"
  shows "\<forall>r\<in>set rs. \<exists>j it. scoreItem fs q nq terms j it = Inr (Some r)"
    and "\<forall>it\<in>set items. \<exists>j r. scoreItem fs q nq terms j it = Inr r
             \<and> (case r of None \<Rightarrow> True | Some x \<Rightarrow> x \<in> set rs)"
  using assms
proof (induction items arbitrary: i rs)
  case Nil
  { case 1 then show ?case by simp }
  { case 2 then show ?case by simp }
next
  case (Cons a items)
  { case 1
    from 1 obtain r rs' where
      r: "scoreItem fs q nq terms i a = Inr r" and
      rs': "scoreItems fs q nq terms (Suc i) items = Inr rs'" and
      rs: "rs = (case r of None \<Rightarrow> rs' | Some x \<Rightarrow> x # rs')"
      by (auto split: sum.splits)
    from Cons.IH(1) [OF rs'] r rs show ?case
      by (cases r) auto }
  { case 2
    from 2 obtain r rs' where
      r: "scoreItem fs q nq terms i a = Inr r" and
      rs': "scoreItems fs q nq terms (Suc i) items = Inr rs'" and
      rs: "rs = (case r of None \<Rightarrow> rs' | Some x \<Rightarrow> x # rs')"
      by (auto split: sum.splits)
    have "\<exists>j r. scoreItem fs q nq terms j a = Inr r
             \<and> (case r of None \<Rightarrow> True | Some x \<Rightarrow> x \<in> set rs)"
      using r rs by (intro exI [of _ i] exI [of _ r]) (cases r; simp)
    moreover have "\<forall>it\<in>set items. \<exists>j r. scoreItem fs q nq terms j it = Inr r
             \<and> (case r of None \<Rightarrow> True | Some x \<Rightarrow> x \<in> set rs)"
    proof
      fix it assume "it \<in> set items"
      with Cons.IH(2) [OF rs'] obtain j r' where
        "scoreItem fs q nq terms j it = Inr r'" "case r' of None \<Rightarrow> True | Some x \<Rightarrow> x \<in> set rs'"
        by blast
      then show "\<exists>j r. scoreItem fs q nq terms j it = Inr r
             \<and> (case r of None \<Rightarrow> True | Some x \<Rightarrow> x \<in> set rs)"
        using rs by (intro exI [of _ j] exI [of _ r']) (cases r; cases r'; simp)
    qed
    ultimately show ?case by simp }
qed

section \<open>Properties of the stable sort\<close>

lemma insort_key_stable_order:
  fixes f :: "'a \<Rightarrow> 'k::linorder"
  assumes "sorted_wrt (\<lambda>a b. f a < f b \<or> (f a = f b \<and> R a b)) ys" "\<forall>y\<in>set ys. R x y"
  shows "sorted_wrt (\<lambda>a b. f a < f b \<or> (f a = f b \<and> R a b)) (insort_key f x ys)"
  using assms
proof (induction ys)
  case Nil
  show ?case by simp
next
  case (Cons y ys)
  show ?case
  proof (cases "f x \<le> f y")
    case True
    have "\<forall>z\<in>set (y # ys). f x < f z \<or> (f x = f z \<and> R x z)"
    proof
      fix z assume z: "z \<in> set (y # ys)"
      then have "f y \<le> f z" using Cons.prems(1) by auto
      with True have "f x \<le> f z" by simp
      moreover have "R x z" using Cons.prems(2) z by auto
      ultimately show "f x < f z \<or> (f x = f z \<and> R x z)" by auto
    qed
    with True Cons.prems(1) show ?thesis by simp
  next
    case False
    then have "f y < f x" by simp
    moreover have "sorted_wrt (\<lambda>a b. f a < f b \<or> (f a = f b \<and> R a b)) (insort_key f x ys)"
      using Cons by simp
    ultimately show ?thesis
      using False Cons.prems(1) by (auto simp: set_insort_key)
  qed
qed

lemma sort_key_stable_order:
  fixes f :: "'a \<Rightarrow> 'k::linorder"
  assumes "sorted_wrt R xs"
  shows "sorted_wrt (\<lambda>a b. f a < f b \<or> (f a = f b \<and> R a b)) (sort_key f xs)"
  using assms
proof (induction xs)
  case Nil
  show ?case by simp
next
  case (Cons x xs)
  then have "sorted_wrt (\<lambda>a b. f a < f b \<or> (f a = f b \<and> R a b)) (sort_key f xs)"
    and "\<forall>y\<in>set (sort_key f xs). R x y"
    by simp_all
  then show ?case
    by (simp add: insort_key_stable_order)
qed

lemma sortByScore_order:
  assumes "sorted_wrt R results"
  shows "sorted_wrt (\<lambda>a b. score b < score a \<or> (score a = score b \<and> R a b)) (sortByScore results)"
  using sort_key_stable_order [OF assms, of "\<lambda>r. - score r"]
  by (simp add: sortByScore_def)

lemma scoreItem_refIndex:
  "scoreItem fs q nq terms i it = Inr (Some r) \<Longrightarrow> refIndex r = Some (int i) \<and> item r = it"
  by (auto simp: scoreItem_def Let_def split: sum.splits prod.splits if_splits)

lemma scoreItems_refIndex:
  "scoreItems fs q nq terms i items = Inr rs \<Longrightarrow>
   sorted_wrt (\<lambda>a b. refIndex a < refIndex b) rs \<and> (\<forall>r\<in>set rs. \<exists>j\<ge>i. refIndex r = Some (int j))"
proof (induction items arbitrary: i rs)
  case Nil
  then show ?case by simp
next
  case (Cons it rest)
  from Cons.prems obtain r rs' where
    r: "scoreItem fs q nq terms i it = Inr r" and
    rs': "scoreItems fs q nq terms (Suc i) rest = Inr rs'" and
    rs: "rs = (case r of None \<Rightarrow> rs' | Some x \<Rightarrow> x # rs')"
    by (auto split: sum.splits)
  note IH = Cons.IH [OF rs']
  show ?case
  proof (cases r)
    case None
    with rs IH show ?thesis by (auto intro: Suc_leD)
  next
    case (Some x)
    with r have x: "refIndex x = Some (int i)" by (simp add: scoreItem_refIndex)
    have "\<forall>y\<in>set rs'. refIndex x < refIndex y"
      using IH x by auto
    with Some rs IH x show ?thesis by (auto intro: Suc_leD)
  qed
qed

lemma scoreItems_refIndex_nth:
  "scoreItems fs q nq terms i items = Inr rs \<Longrightarrow>
   \<forall>r\<in>set rs. \<exists>j<length items. refIndex r = Some (int (i + j)) \<and> items ! j = item r"
proof (induction items arbitrary: i rs)
  case Nil
  then show ?case by simp
next
  case (Cons it rest)
  from Cons.prems obtain r rs' where
    r: "scoreItem fs q nq terms i it = Inr r" and
    rs': "scoreItems fs q nq terms (Suc i) rest = Inr rs'" and
    rs: "rs = (case r of None \<Rightarrow> rs' | Some x \<Rightarrow> x # rs')"
    by (auto split: sum.splits)
  have tl: "\<exists>j<length (it # rest). refIndex y = Some (int (i + j)) \<and> (it # rest) ! j = item y"
    if "y \<in> set rs'" for y
  proof -
    from Cons.IH [OF rs'] that obtain j where
      "j < length rest" "refIndex y = Some (int (Suc i + j))" "rest ! j = item y"
      by blast
    then show ?thesis
      by (intro exI [of _ "Suc j"]) simp
  qed
  show ?case
  proof (cases r)
    case None
    with rs tl show ?thesis by simp
  next
    case (Some x)
    with r have "refIndex x = Some (int i) \<and> item x = it"
      by (simp add: scoreItem_refIndex)
    then have "\<exists>j<length (it # rest). refIndex x = Some (int (i + j)) \<and> (it # rest) ! j = item x"
      by (intro exI [of _ 0]) simp
    with Some rs tl show ?thesis by auto
  qed
qed

text \<open>
  The results of \<open>search\<close> are sorted by non-increasing score, results of equal score
  by increasing \<open>refIndex\<close>, and the \<open>refIndex\<close> of a result is the position of its
  entry in the catalog.
\<close>

lemma search_sorted_order:
  assumes "2 \<le> length q"
  shows "(search fs items (Some q) = Inr results \<longrightarrow>
            sorted_wrt (\<lambda>a b. score a \<ge> score b) results
            \<and> sorted_wrt (\<lambda>a b. score a = score b \<longrightarrow> refIndex a < refIndex b) results)
         \<and> (searchIndex fs indexedItems (Some q) = Inr found \<longrightarrow>
            sorted_wrt (\<lambda>a b. score a \<ge> score b) found)"
proof (intro conjI impI)
  from assms have long: "\<not> tooShort (Some q) 2"
    by (auto simp: tooShort_def)
  {
    assume "search fs items (Some q) = Inr results"
    with long obtain terms rs where
      rs: "scoreItems fs q (trim (toLowerCase q)) terms 0 items = Inr rs" and
      res: "results = sortByScore rs"
      by (auto simp: search_def Let_def split: sum.splits)
    from scoreItems_refIndex [OF rs]
    have "sorted_wrt (\<lambda>a b. refIndex a < refIndex b) rs" by simp
    from sortByScore_order [OF this]
    have s: "sorted_wrt (\<lambda>a b. score b < score a \<or> (score a = score b \<and> refIndex a < refIndex b)) results"
      by (simp add: res)
    show "sorted_wrt (\<lambda>a b. score a \<ge> score b) results"
      by (rule sorted_wrt_mono_rel [OF _ s]) auto
    show "sorted_wrt (\<lambda>a b. score a = score b \<longrightarrow> refIndex a < refIndex b) results"
      by (rule sorted_wrt_mono_rel [OF _ s]) auto
  }
  {
    assume "searchIndex fs indexedItems (Some q) = Inr found"
    with long obtain rs where res: "found = sortByScore rs"
      by (auto simp: searchIndex_def Let_def split: sum.splits)
    have "sorted_wrt (\<lambda>a b. True) rs" by (induction rs) auto
    from sortByScore_order [OF this]
    have s: "sorted_wrt (\<lambda>a b. score b < score a \<or> (score a = score b \<and> True)) found"
      by (simp add: res)
    show "sorted_wrt (\<lambda>a b. score a \<ge> score b) found"
      by (rule sorted_wrt_mono_rel [OF _ s]) auto
  }
qed

lemma search_refIndex_nth:
  assumes "2 \<le> length q" "search fs items (Some q) = Inr results"
  shows "\<forall>r\<in>set results. \<exists>j<length items. refIndex r = Some (int j) \<and> items ! j = item r"
proof -
  from assms(1) have long: "\<not> tooShort (Some q) 2"
    by (auto simp: tooShort_def)
  with assms(2) obtain terms rs where
    rs: "scoreItems fs q (trim (toLowerCase q)) terms 0 items = Inr rs" and
    res: "results = sortByScore rs"
    by (auto simp: search_def Let_def split: sum.splits)
  have "set results = set rs"
    by (simp add: res sortByScore_def)
  with scoreItems_refIndex_nth [OF rs] show ?thesis by simp
qed

section \<open>When the search returns\<close>

text \<open>
  \<open>search\<close> returns a result list for every catalog whose entries have a name and a
  display name, unless the normalized query names an inherited property of the keyword
  table.
\<close>

lemma calculateSearchScore_returns:
  "wellFormed it \<Longrightarrow> \<exists>kw. calculateSearchScore it q terms = Inr kw"
  by (auto simp: wellFormed_def calculateSearchScore_def nameBoost_def Let_def)

lemma scoreItem_returns:
  assumes "wellFormed it"
  shows "\<exists>r. scoreItem fs q nq terms i it = Inr r"
proof -
  from calculateSearchScore_returns [OF assms] obtain kw where
    "calculateSearchScore it q terms = Inr kw" by blast
  then show ?thesis
    by (auto simp: scoreItem_def Let_def split: prod.splits)
qed

lemma scoreItems_returns:
  "list_all wellFormed items \<Longrightarrow> \<exists>rs. scoreItems fs q nq terms i items = Inr rs"
proof (induction items arbitrary: i)
  case Nil
  show ?case by simp
next
  case (Cons it items)
  then obtain r where "scoreItem fs q nq terms i it = Inr r"
    using scoreItem_returns [of it fs q nq terms i] by auto
  moreover from Cons obtain rs where "scoreItems fs q nq terms (Suc i) items = Inr rs"
    by auto
  ultimately show ?case by simp
qed

lemma expandSearchQuery_returns:
  "trim (toLowerCase t) \<notin> set objectPrototypeKeys \<Longrightarrow> \<exists>terms. expandSearchQuery t = Inr terms"
  by (auto simp: expandSearchQuery_def getKeywords_def Let_def split: option.splits property.splits)

lemma search_returns:
  assumes "list_all wellFormed items" "trim (toLowerCase q) \<notin> set objectPrototypeKeys"
  shows "\<exists>results. search fs items (Some q) = Inr results"
proof (cases "tooShort (Some q) 2")
  case True
  then show ?thesis by (simp add: search_def)
next
  case False
  from assms(2) obtain terms where
    "expandSearchQuery (trim (toLowerCase q)) = Inr terms"
    using expandSearchQuery_returns [of "trim (toLowerCase q)"] by (auto simp: normalize_idem)
  moreover obtain rs where "scoreItems fs q (trim (toLowerCase q)) terms 0 items = Inr rs"
    using scoreItems_returns [OF assms(1)] by blast
  ultimately show ?thesis
    using False by (simp add: search_def Let_def)
qed

section \<open>The example catalogs, evaluated\<close>

lemma search_vim_eval:
  "search defaultFuzzySearch [vimPluginsGuide, vimGuide] (Some ''vim'') =
     Inr [\<lparr>score = 3,
           matches = [\<lparr>start = 0, matchEnd = 3, matchType = ''exact'', queryIndex = None,
                       key = Name, value = ''vim-plugins'', expandedTerm = None\<rparr>],
           item = vimPluginsGuide, refIndex = Some 0, matchedKey = Some Name,
           keywordScore = Some 2, fuzzyScore = Some 1\<rparr>,
          \<lparr>score = 3,
           matches = [\<lparr>start = 0, matchEnd = 3, matchType = ''exact'', queryIndex = None,
                       key = Name, value = ''vim'', expandedTerm = None\<rparr>],
           item = vimGuide, refIndex = Some 1, matchedKey = Some Name,
           keywordScore = Some 2, fuzzyScore = Some 1\<rparr>]"
  by code_simp

lemma searchIndex_install_eval:
  "searchIndex defaultFuzzySearch (createIndex defaultFuzzySearch [installGuide]) (Some ''vim'') =
     Inr [\<lparr>score = 3,
           matches = [\<lparr>start = 15, matchEnd = 18, matchType = ''exact'', queryIndex = None,
                       key = Description, value = ''how to install vim'',
                       expandedTerm = None\<rparr>],
           item = indexItem defaultFuzzySearch 0 installGuide, refIndex = Some 0,
           matchedKey = Some Description, keywordScore = Some 2, fuzzyScore = Some 1\<rparr>]"
  by code_simp

lemma vim_lower_eval:
  "map_option toLowerCase (displayName vimGuide) = Some (toLowerCase ''vim'')
   \<and> toLowerCase ''VIM'' = toLowerCase ''vim''"
  by code_simp

lemma vim_wellFormed_eval:
  "list_all wellFormed [vimPluginsGuide, vimGuide]
   \<and> trim (toLowerCase ''vim'') \<notin> set objectPrototypeKeys"
  by code_simp

section \<open>C1: an entry whose display name is the query\<close>

text \<open>
  C1, as the spec states it, fails: for the query \<open>vim\<close> the guide whose display name
  is \<open>VIM\<close> comes second, after a guide that merely contains the query. The two
  scores are equal, and the sort keeps the order of the catalog.
\<close>

theorem exact_displayName_not_first:
  "map_option toLowerCase (displayName vimGuide) = Some (toLowerCase ''vim'')
   \<and> map_sum id (map item) (search defaultFuzzySearch [vimPluginsGuide, vimGuide] (Some ''vim''))
       = Inr [vimPluginsGuide, vimGuide]
   \<and> vimPluginsGuide \<noteq> vimGuide"
  using vim_lower_eval by (simp add: search_vim_eval) (simp add: vimGuide_def vimPluginsGuide_def)

lemma search_exact_displayName_score:
  assumes q: "2 \<le> length q"
    and e: "e \<in> set items" "displayName e = Some d" "toLowerCase d = toLowerCase q"
    and fs: "DisplayName \<in> set (keys fs)" "threshold fs \<le> 3"
    and res: "search fs items (Some q) = Inr results"
  shows "(\<exists>r\<in>set results. item r = e \<and> score r = 3) \<and> (\<forall>r\<in>set results. score r \<le> 3)"
proof -
  let ?nq = "trim (toLowerCase q)"
  from q have qne: "q \<noteq> []" and long: "\<not> tooShort (Some q) 2"
    by (auto simp: tooShort_def)
  from res long obtain terms rs where
    terms: "expandSearchQuery ?nq = Inr terms" and
    rs: "scoreItems fs q ?nq terms 0 items = Inr rs" and
    results: "results = sortByScore rs"
    by (auto simp: search_def Let_def split: sum.splits)
  have set: "set results = set rs"
    by (simp add: results sortByScore_def)
  have bound: "\<forall>r\<in>set results. score r \<le> 3"
    using scoreItems_results(1) [OF rs] scoreItem_score_le unfolding set by blast
  have "length d = length q" using e(3) by (metis length_toLowerCase)
  with qne have dne: "d \<noteq> []" by auto
  have v: "getValue e DisplayName = d"
    using e(2) by (simp add: getValue_def)
  have best: "fst (fold (keyStep fs e ?nq terms) (keys fs) (0, [], None)) = 1"
  proof (rule fold_keyStep_exact [OF fs(1)])
    show "getValue e DisplayName \<noteq> []" using v dne by simp
    show "sublist ?nq (toLowerCase (getValue e DisplayName))"
      using sublist_normalized(1) [of q] by (simp add: v e(3))
    show "fst (0 :: rat, [] :: KeyedMatch list, None :: key option) \<le> 1" by simp
  qed
  from scoreItems_results(2) [OF rs] e(1) obtain j r where
    r: "scoreItem fs q ?nq terms j e = Inr r" and
    mem: "case r of None \<Rightarrow> True | Some x \<Rightarrow> x \<in> set rs"
    by blast
  have t: "trim (toLowerCase ?nq) \<in> set terms"
    using terms by (rule expandSearchQuery_contains_normalized)
  have kw2: "kw = 2" if "calculateSearchScore e q terms = Inr kw" for kw
    using e(2,3) qne t sublist_normalized(2) that by (rule calculateSearchScore_exact)
  have "\<exists>x. r = Some x"
  proof (cases r)
    case None
    with r scoreItem_None obtain kw where
      "calculateSearchScore e q terms = Inr kw"
      "kw + fst (fold (keyStep fs e ?nq terms) (keys fs) (0, [], None)) < threshold fs"
      by blast
    with kw2 best fs(2) show ?thesis by auto
  next
    case (Some x)
    then show ?thesis by simp
  qed
  then obtain x where x: "r = Some x" by blast
  from scoreItem_Some [OF r [unfolded x]] obtain kw where
    "calculateSearchScore e q terms = Inr kw"
    "score x = kw + fst (fold (keyStep fs e ?nq terms) (keys fs) (0, [], None))"
    "item x = e"
    by blast
  with kw2 best have "item x = e \<and> score x = 3" by auto
  moreover have "x \<in> set results" using mem x set by simp
  ultimately show ?thesis using bound by blast
qed

lemma search_exact_displayName_rank:
  assumes q: "2 \<le> length q"
    and e: "e \<in> set items" "displayName e = Some d" "toLowerCase d = toLowerCase q"
    and fs: "DisplayName \<in> set (keys fs)" "threshold fs \<le> 3"
    and res: "search fs items (Some q) = Inr results"
  shows "\<exists>pre r post. results = pre @ r # post \<and> item r = e \<and> score r = 3
           \<and> (\<forall>x\<in>set pre. score x = 3 \<and> refIndex x < refIndex r)"
proof -
  from search_exact_displayName_score [OF q e fs res] obtain r where
    r: "r \<in> set results" "item r = e" "score r = 3" and
    bound: "\<forall>x\<in>set results. score x \<le> 3"
    by blast
  from r(1) obtain pre post where split: "results = pre @ r # post"
    by (auto dest: split_list)
  from search_sorted_order [OF q, of fs items results] res have
    s1: "sorted_wrt (\<lambda>a b. score a \<ge> score b) results" and
    s2: "sorted_wrt (\<lambda>a b. score a = score b \<longrightarrow> refIndex a < refIndex b) results"
    by simp_all
  have "score x = 3 \<and> refIndex x < refIndex r" if x: "x \<in> set pre" for x
  proof -
    from s1 x have "score r \<le> score x"
      by (simp add: split sorted_wrt_append)
    moreover from bound x have "score x \<le> 3"
      by (simp add: split)
    ultimately have eq: "score x = 3" using r(3) by simp
    from s2 x have "score x = score r \<longrightarrow> refIndex x < refIndex r"
      by (simp add: split sorted_wrt_append)
    with eq r(3) show ?thesis by simp
  qed
  with split r(2,3) show ?thesis by blast
qed

text \<open>
  C1, amended: for \<open>FuzzySearch.search\<close>, if the query has at least 2 characters and the
  lower-cased display name of an entry \<open>e\<close> of the catalog equals the lower-cased query,
  then, the display name being among the searched keys and the threshold at most 3 (as
  with the default options), whenever \<open>search\<close> returns, \<open>e\<close> is in the result list with
  the score 3, which no result exceeds, and every result that comes before \<open>e\<close> has the
  score 3 as well and a smaller \<open>refIndex\<close>: only entries that tie with \<open>e\<close> at the
  greatest score and stand before it in the catalog precede it (the \<open>refIndex\<close> of a
  result is the position of its entry in the catalog). So \<open>e\<close> is first unless such an
  entry exists. And \<open>search\<close> does return when every entry has a name and a display
  name and the normalized query names no inherited property of the keyword table.
\<close>

theorem search_exact_displayName:
  assumes "2 \<le> length q"
    and "e \<in> set items" "displayName e = Some d" "toLowerCase d = toLowerCase q"
    and "DisplayName \<in> set (keys fs)" "threshold fs \<le> 3"
  shows "(search fs items (Some q) = Inr results \<longrightarrow>
            (\<exists>pre r post. results = pre @ r # post \<and> item r = e \<and> score r = 3
                \<and> (\<forall>x\<in>set pre. score x = 3 \<and> refIndex x < refIndex r))
            \<and> (\<forall>r\<in>set results. score r \<le> 3)
            \<and> (\<forall>r\<in>set results. \<exists>j<length items. refIndex r = Some (int j) \<and> items ! j = item r))
         \<and> (list_all wellFormed items \<and> trim (toLowerCase q) \<notin> set objectPrototypeKeys \<longrightarrow>
            (\<exists>found. search fs items (Some q) = Inr found))"
  using search_exact_displayName_rank [OF assms] search_exact_displayName_score [OF assms]
    search_refIndex_nth [OF assms(1)] search_returns [of items q fs]
  by blast

theorem search_exact_displayName_witness:
  "2 \<le> length ''vim''
   \<and> vimGuide \<in> set [vimPluginsGuide, vimGuide]
   \<and> displayName vimGuide = Some ''VIM''
   \<and> toLowerCase ''VIM'' = toLowerCase ''vim''
   \<and> DisplayName \<in> set (keys defaultFuzzySearch)
   \<and> threshold defaultFuzzySearch \<le> 3
   \<and> list_all wellFormed [vimPluginsGuide, vimGuide]
   \<and> trim (toLowerCase ''vim'') \<notin> set objectPrototypeKeys
   \<and> (\<exists>results pre r post.
         search defaultFuzzySearch [vimPluginsGuide, vimGuide] (Some ''vim'') = Inr results
         \<and> results = pre @ r # post \<and> item r = vimGuide \<and> score r = 3
         \<and> pre \<noteq> []
         \<and> list_all (\<lambda>x. score x = 3 \<and> refIndex x < refIndex r) pre
         \<and> list_all (\<lambda>x. score x \<le> 3) results
         \<and> list_all (\<lambda>x. list_ex (\<lambda>j. refIndex x = Some (int j)
               \<and> [vimPluginsGuide, vimGuide] ! j = item x) [0 ..< length [vimPluginsGuide, vimGuide]])
             results)"
proof -
  have h: "2 \<le> length ''vim''" "vimGuide \<in> set [vimPluginsGuide, vimGuide]"
    "displayName vimGuide = Some ''VIM''" "toLowerCase ''VIM'' = toLowerCase ''vim''"
    "DisplayName \<in> set (keys defaultFuzzySearch)" "threshold defaultFuzzySearch \<le> 3"
    using vim_lower_eval
    by (simp_all add: vimGuide_def defaultFuzzySearch_def newFuzzySearch_def)
  have w: "list_all wellFormed [vimPluginsGuide, vimGuide]
           \<and> trim (toLowerCase ''vim'') \<notin> set objectPrototypeKeys"
    using vim_wellFormed_eval by simp
  have ne: "vimPluginsGuide \<noteq> vimGuide"
    by (simp add: vimGuide_def vimPluginsGuide_def)
  obtain results where res: "search defaultFuzzySearch [vimPluginsGuide, vimGuide] (Some ''vim'') = Inr results"
    using search_exact_displayName [OF h, of "[]"] w by blast
  from search_exact_displayName [OF h, of results] res obtain pre r post where
    split: "results = pre @ r # post" "item r = vimGuide" "score r = 3" and
    pre: "\<forall>x\<in>set pre. score x = 3 \<and> refIndex x < refIndex r" and
    bound: "\<forall>x\<in>set results. score x \<le> 3" and
    nth: "\<forall>x\<in>set results. \<exists>j<length [vimPluginsGuide, vimGuide].
            refIndex x = Some (int j) \<and> [vimPluginsGuide, vimGuide] ! j = item x"
    by blast
  have "pre \<noteq> []"
  proof
    assume "pre = []"
    with split(1) res have "hd results = r" by simp
    moreover from res [unfolded search_vim_eval] have "item (hd results) = vimPluginsGuide"
      by auto
    ultimately show False using split(2) ne by simp
  qed
  moreover from nth have "list_all (\<lambda>x. list_ex (\<lambda>j. refIndex x = Some (int j)
               \<and> [vimPluginsGuide, vimGuide] ! j = item x) [0 ..< length [vimPluginsGuide, vimGuide]])
             results"
    unfolding list_all_iff list_ex_iff by (metis atLeast0LessThan lessThan_iff set_upt)
  ultimately show ?thesis
    using h w res split pre bound unfolding list_all_iff by blast
qed

section \<open>C2: the order of the results\<close>

text \<open>
  C2, as the spec states it, fails: two results of equal score are returned in the
  order of the catalog, the one with 1 star before the one with 5 stars.
\<close>

theorem equal_scores_not_by_stars:
  "map_sum id (map score) (search defaultFuzzySearch [vimPluginsGuide, vimGuide] (Some ''vim''))
     = Inr [3, 3]
   \<and> map_sum id (map (stars \<circ> item))
        (search defaultFuzzySearch [vimPluginsGuide, vimGuide] (Some ''vim''))
     = Inr [1, 5]"
  by (simp add: search_vim_eval) (simp add: vimGuide_def vimPluginsGuide_def)

text \<open>
  C2, amended: for every query of at least 2 characters and every catalog, the result
  list that \<open>search\<close> returns is sorted by non-increasing score, and results of equal
  score keep the order of the catalog (increasing \<open>refIndex\<close>): the sort is stable and
  compares neither stars nor display names. The list that \<open>searchIndex\<close> returns is
  sorted by non-increasing score as well. And \<open>search\<close> does return when every entry
  has a name and a display name and the normalized query names no inherited property of
  the keyword table.
\<close>

theorem search_sorted_by_score:
  assumes "2 \<le> length q"
  shows "(search fs items (Some q) = Inr results \<longrightarrow>
            sorted_wrt (\<lambda>a b. score a \<ge> score b) results
            \<and> sorted_wrt (\<lambda>a b. score a = score b \<longrightarrow> refIndex a < refIndex b) results)
         \<and> (searchIndex fs indexedItems (Some q) = Inr found \<longrightarrow>
            sorted_wrt (\<lambda>a b. score a \<ge> score b) found)
         \<and> (list_all wellFormed items \<and> trim (toLowerCase q) \<notin> set objectPrototypeKeys \<longrightarrow>
            (\<exists>returned. search fs items (Some q) = Inr returned))"
  using search_sorted_order [OF assms, of fs items results indexedItems found]
    search_returns [of items q fs]
  by blast

theorem search_sorted_by_score_witness:
  "2 \<le> length ''vim''
   \<and> list_all wellFormed [vimPluginsGuide, vimGuide]
   \<and> trim (toLowerCase ''vim'') \<notin> set objectPrototypeKeys
   \<and> (\<exists>results. search defaultFuzzySearch [vimPluginsGuide, vimGuide] (Some ''vim'') = Inr results
         \<and> results \<noteq> []
         \<and> sorted_wrt (\<lambda>a b. score a \<ge> score b) results
         \<and> sorted_wrt (\<lambda>a b. score a = score b \<longrightarrow> refIndex a < refIndex b) results)
   \<and> (\<exists>found. searchIndex defaultFuzzySearch (createIndex defaultFuzzySearch [installGuide])
                  (Some ''vim'') = Inr found
         \<and> found \<noteq> []
         \<and> sorted_wrt (\<lambda>a b. score a \<ge> score b) found)"
proof -
  have h: "2 \<le> length ''vim''" by simp
  from search_sorted_by_score [OF h] search_vim_eval searchIndex_install_eval h vim_wellFormed_eval
  show ?thesis by blast
qed

section \<open>C3: short queries at the search manager\<close>

text \<open>
  Scoring an entry without a name raises, so a search that scored such an entry would
  not return a result.
\<close>

lemma malformed_entry_raises:
  "name it = None \<Longrightarrow> calculateSearchScore it q terms = Inl TypeError"
  by (simp add: calculateSearchScore_def nameBoost_def Let_def)

text \<open>
  C3: for every query that is missing, empty or shorter than 2 characters, the search
  of the manager (whose minimum query length is 2, the default, or more) returns the
  empty result list, a result and not an error, and changes nothing but the current
  query and the selected index. This holds for every manager, whatever its catalog and
  index, also one whose entries cannot be scored: the outcome does not come from
  matching or scoring any entry.
\<close>

theorem managerSearch_short_query:
  assumes "2 \<le> minQueryLength mgr" "tooShort query 2"
  shows "managerSearch mgr query = (Inr [], mgr\<lparr>currentQuery := query, selectedIndex := - 1\<rparr>)"
  using assms
  by (auto simp: managerSearch_def Let_def tooShort_def split: option.splits)

theorem managerSearch_short_query_witness:
  "2 \<le> minQueryLength (setData defaultManager [installGuide])
   \<and> tooShort (Some ''v'') 2 \<and> tooShort (Some []) 2 \<and> tooShort None 2
   \<and> fst (managerSearch (setData defaultManager [installGuide]) (Some ''v'')) = Inr []
   \<and> fst (managerSearch (setData defaultManager [installGuide]) (Some [])) = Inr []
   \<and> fst (managerSearch (setData defaultManager [installGuide]) None) = Inr []"
proof -
  have m: "2 \<le> minQueryLength (setData defaultManager [installGuide])"
    by (simp add: setData_def defaultManager_def newSearchManager_def)
  have h: "tooShort (Some ''v'') 2" "tooShort (Some []) 2" "tooShort None 2"
    by (simp_all add: tooShort_def)
  show ?thesis
    using m h managerSearch_short_query [OF m h(1)] managerSearch_short_query [OF m h(2)]
      managerSearch_short_query [OF m h(3)]
    by simp
qed

section \<open>C10: short queries at the fuzzy search\<close>

text \<open>
  C10: for every catalog and every query that is missing, empty or shorter than 2
  characters, \<open>search\<close> returns one result per item of the catalog, in the order of
  the catalog, each with score 0 and no span, and not an empty list (unless the catalog
  is empty); \<open>searchIndex\<close> does the same with the indexed items. The empty result for
  short queries is that of the search manager.
\<close>

theorem search_short_query:
  assumes "tooShort query 2"
  shows "(\<exists>results. search fs items query = Inr results
           \<and> map item results = items
           \<and> list_all (\<lambda>r. score r = 0 \<and> matches r = []) results
           \<and> (items \<noteq> [] \<longrightarrow> results \<noteq> []))
       \<and> (\<exists>found. searchIndex fs indexedItems query = Inr found
           \<and> map item found = indexedItems
           \<and> list_all (\<lambda>r. score r = 0 \<and> matches r = []) found
           \<and> (indexedItems \<noteq> [] \<longrightarrow> found \<noteq> []))
       \<and> (2 \<le> minQueryLength mgr \<longrightarrow> fst (managerSearch mgr query) = Inr [])"
  using assms
  by (auto simp: search_def searchIndex_def managerSearch_def Let_def list_all_iff o_def tooShort_def split: option.splits)

theorem search_short_query_witness:
  "tooShort (Some ''v'') 2
   \<and> (\<exists>results. search defaultFuzzySearch [vimPluginsGuide, vimGuide] (Some ''v'') = Inr results
         \<and> map item results = [vimPluginsGuide, vimGuide]
         \<and> list_all (\<lambda>r. score r = 0 \<and> matches r = []) results
         \<and> results \<noteq> [])
   \<and> 2 \<le> minQueryLength (setData defaultManager [vimPluginsGuide, vimGuide])
   \<and> fst (managerSearch (setData defaultManager [vimPluginsGuide, vimGuide]) (Some ''v'')) = Inr []"
proof -
  have h: "tooShort (Some ''v'') 2" by (simp add: tooShort_def)
  have m: "2 \<le> minQueryLength (setData defaultManager [vimPluginsGuide, vimGuide])"
    by (simp add: setData_def defaultManager_def newSearchManager_def)
  from search_short_query [OF h, of defaultFuzzySearch "[vimPluginsGuide, vimGuide]" "[]"
      "setData defaultManager [vimPluginsGuide, vimGuide]"] h m
  show ?thesis by auto
qed

section \<open>C7: the expansion contains the term\<close>

text \<open>
  The expansion of a query contains the normalized query whenever it returns
  (\<open>expandSearchQuery_contains_normalized\<close>), and it raises exactly for the
  queries whose normal form names an inherited property of the table object.
\<close>

lemma expandSearchQuery_raises_iff:
  "(expandSearchQuery t = Inl TypeError) =
     (map_of SEARCH_KEYWORDS (trim (toLowerCase t)) = None
      \<and> trim (toLowerCase t) \<in> set objectPrototypeKeys)"
  by (auto simp: expandSearchQuery_def getKeywords_def Let_def split: option.splits property.splits)

text \<open>
  C7 at the query \<open>constructor\<close>: the table object inherits a property of that name,
  the expansion calls \<open>forEach\<close> on it and raises instead of returning a list that
  contains the term.
\<close>

theorem expandSearchQuery_constructor:
  "expandSearchQuery ''constructor'' = Inl TypeError"
  by code_simp

section \<open>Properties of the spans\<close>

text \<open>
  The spans of a result lie within the value they were found in, which each span
  records, and they do not overlap, for every query that is not white space only.
\<close>

lemma spansOrdered_nonOverlapping: "spansOrdered ms \<Longrightarrow> spansNonOverlapping ms"
  unfolding spansOrdered_def
  by (induction ms) (auto simp: list_all_iff)

lemma indexOfFrom_bounds:
  "indexOfFrom i s q = Some j \<Longrightarrow> i \<le> j \<and> (j - i) + length q \<le> length s"
proof (induction s arbitrary: i)
  case Nil
  then show ?case by (simp split: if_splits)
next
  case (Cons c cs)
  show ?case
  proof (cases "prefix q (c # cs)")
    case True
    with Cons.prems have "j = i" by simp
    moreover from True have "length q \<le> length (c # cs)" by (rule prefix_length_le)
    ultimately show ?thesis by simp
  next
    case False
    with Cons.prems have "indexOfFrom (Suc i) cs q = Some j" by simp
    from Cons.IH [OF this] show ?thesis by auto
  qed
qed

lemma indexOf_bounds: "indexOf s q = Some j \<Longrightarrow> j + length q \<le> length s"
  using indexOfFrom_bounds [of 0 s q j] by (simp add: indexOf_def)

lemma wordBoundarySearch_bounds:
  "wordBoundarySearch i l s q = Some j \<Longrightarrow> i \<le> j \<and> (j - i) + length q \<le> length s"
proof (induction s arbitrary: i l)
  case Nil
  then show ?case by (simp split: if_splits)
next
  case (Cons c cs)
  show ?case
  proof (cases "atWordBoundary l (Some c) \<and> prefix (map toUpperChar q) (map toUpperChar (c # cs))")
    case True
    with Cons.prems have "j = i" by simp
    moreover from True have "length (map toUpperChar q) \<le> length (map toUpperChar (c # cs))"
      by (intro prefix_length_le) simp
    ultimately show ?thesis by simp
  next
    case False
    with Cons.prems have "wordBoundarySearch (Suc i) (Some c) cs q = Some j" by auto
    from Cons.IH [OF this] show ?thesis by auto
  qed
qed

lemma wordBoundaryIndex_bounds: "wordBoundaryIndex s q = Some j \<Longrightarrow> j + length q \<le> length s"
  using wordBoundarySearch_bounds [of 0 None s q j] by (simp add: wordBoundaryIndex_def)

lemma mergeFrom_spans:
  assumes "list_all (spanWithinField t) (cur # ms)" "spansOrdered (cur # ms)"
  shows "list_all (spanWithinField t) (mergeFrom cur ms) \<and> spansOrdered (mergeFrom cur ms)
         \<and> start (hd (mergeFrom cur ms)) = start cur"
  using assms
proof (induction ms arbitrary: cur)
  case Nil
  then show ?case by simp
next
  case (Cons m ms)
  show ?case
  proof (cases "start m = matchEnd cur")
    case True
    let ?cur = "cur\<lparr>matchEnd := matchEnd m\<rparr>"
    have "list_all (spanWithinField t) (?cur # ms)"
      using Cons.prems True by (auto simp: list_all_iff spanWithinField_def)
    moreover have "spansOrdered (?cur # ms)"
      using Cons.prems True by (auto simp: spansOrdered_def)
    ultimately have "list_all (spanWithinField t) (mergeFrom ?cur ms) \<and> spansOrdered (mergeFrom ?cur ms)
         \<and> start (hd (mergeFrom ?cur ms)) = start ?cur"
      by (rule Cons.IH)
    with True show ?thesis by simp
  next
    case False
    have "list_all (spanWithinField t) (m # ms)" "spansOrdered (m # ms)"
      using Cons.prems by (auto simp: spansOrdered_def)
    then have IH: "list_all (spanWithinField t) (mergeFrom m ms) \<and> spansOrdered (mergeFrom m ms)
         \<and> start (hd (mergeFrom m ms)) = start m"
      by (rule Cons.IH)
    have ne: "mergeFrom m ms \<noteq> []" by (rule mergeFrom_not_Nil)
    have "\<forall>b\<in>set (mergeFrom m ms). start m \<le> start b"
    proof -
      obtain h rest where hr: "mergeFrom m ms = h # rest" using ne by (cases "mergeFrom m ms") auto
      with IH have "start h = start m" "spansOrdered (h # rest)" "list_all (spanWithinField t) (h # rest)"
        by simp_all
      then show ?thesis
        unfolding hr by (auto simp: spansOrdered_def spanWithinField_def list_all_iff)
    qed
    moreover have "matchEnd cur \<le> start m"
      using Cons.prems by (simp add: spansOrdered_def)
    moreover have "spanWithinField t cur" using Cons.prems by simp
    ultimately show ?thesis
      using False IH by (auto simp: spansOrdered_def)
  qed
qed

lemma mergeConsecutiveMatches_spans:
  assumes "list_all (spanWithinField t) ms" "spansOrdered ms"
  shows "list_all (spanWithinField t) (mergeConsecutiveMatches ms) \<and> spansOrdered (mergeConsecutiveMatches ms)"
proof (cases ms)
  case Nil
  then show ?thesis by (simp add: mergeConsecutiveMatches_def spansOrdered_def)
next
  case (Cons m rest)
  show ?thesis
  proof (cases rest)
    case Nil
    with Cons assms show ?thesis by (simp add: mergeConsecutiveMatches_def)
  next
    case (Cons m' rest')
    with \<open>ms = m # rest\<close> assms mergeFrom_spans [of t m rest] show ?thesis
      by (simp add: mergeConsecutiveMatches_def)
  qed
qed

lemma charSpan_within: "charSpan n m \<Longrightarrow> length t = n \<Longrightarrow> spanWithinField t m"
  by (auto simp: charSpan_def spanWithinField_def)

lemma fuzzyCharacterMatch_spans:
  "list_all (spanWithinField t) (matches (fuzzyCharacterMatch fs q t))
   \<and> spansOrdered (matches (fuzzyCharacterMatch fs q t))"
proof -
  obtain sc ms qi where run: "fuzzyScan q t 0 0 [] 0 (- 1) 0 = (sc, ms, qi)"
    by (cases "fuzzyScan q t 0 0 [] 0 (- 1) 0") auto
  note r = fuzzyScan_initial [OF run]
  have "list_all (spanWithinField t) ms"
    using r(3) by (auto simp: list_all_iff intro: charSpan_within)
  moreover have "spansOrdered ms" using r(4) by (simp add: spansOrdered_def)
  ultimately have "list_all (spanWithinField t) (mergeConsecutiveMatches ms)
      \<and> spansOrdered (mergeConsecutiveMatches ms)"
    by (rule mergeConsecutiveMatches_spans)
  then show ?thesis
    by (simp add: fuzzyCharacterMatch_def run Let_def spansOrdered_def)
qed

lemma fuzzyMatch_spans:
  assumes "q \<noteq> []"
  shows "list_all (spanWithinField t) (matches (fuzzyMatch fs q t))
         \<and> spansOrdered (matches (fuzzyMatch fs q t))"
proof (cases "length t < length q")
  case True
  then show ?thesis by (simp add: fuzzyMatch_longer spansOrdered_def)
next
  case False
  show ?thesis
  proof (cases "indexOf t q")
    case (Some i)
    with False assms indexOf_bounds [OF Some] show ?thesis
      by (simp add: fuzzyMatch_def spanWithinField_def spansOrdered_def)
  next
    case None
    show ?thesis
    proof (cases "wordBoundaryIndex t q")
      case (Some i)
      with None False assms wordBoundaryIndex_bounds [OF Some] show ?thesis
        by (simp add: fuzzyMatch_def spanWithinField_def spansOrdered_def)
    next
      case wb: None
      with None False fuzzyCharacterMatch_spans [of t fs q] show ?thesis
        by (simp add: fuzzyMatch_def)
    qed
  qed
qed

lemma keywords_nonempty:
  "list_all (\<lambda>entry. fst entry \<noteq> [] \<and> list_all (\<lambda>a. a \<noteq> []) (snd entry)) SEARCH_KEYWORDS"
  by (simp add: SEARCH_KEYWORDS_def)

lemma setAdd_nonempty: "[] \<notin> set s \<Longrightarrow> x \<noteq> [] \<Longrightarrow> [] \<notin> set (setAdd s x)"
  by (simp add: setAdd_def)

lemma setAddAll_nonempty: "[] \<notin> set s \<Longrightarrow> [] \<notin> set xs \<Longrightarrow> [] \<notin> set (setAddAll s xs)"
  unfolding setAddAll_def
  by (induction xs arbitrary: s) (auto simp: setAdd_def)

lemma expandPartial_nonempty:
  "[] \<notin> set s \<Longrightarrow> fst entry \<noteq> [] \<Longrightarrow> [] \<notin> set (snd entry) \<Longrightarrow>
   [] \<notin> set (expandPartial q s entry)"
  by (cases entry) (simp add: expandPartial_def setAdd_nonempty setAddAll_nonempty)

lemma fold_expandPartial_nonempty:
  "[] \<notin> set s \<Longrightarrow> list_all (\<lambda>entry. fst entry \<noteq> [] \<and> list_all (\<lambda>a. a \<noteq> []) (snd entry)) tbl \<Longrightarrow>
   [] \<notin> set (fold (\<lambda>entry acc. expandPartial q acc entry) tbl s)"
proof (induction tbl arbitrary: s)
  case Nil
  then show ?case by simp
next
  case (Cons entry tbl)
  then have "[] \<notin> set (expandPartial q s entry)"
    by (intro expandPartial_nonempty) (auto simp: list_all_iff)
  with Cons show ?case by simp
qed

lemma expandSearchQuery_nonempty:
  assumes "expandSearchQuery t = Inr terms" "trim (toLowerCase t) \<noteq> []"
  shows "[] \<notin> set terms"
proof -
  let ?n = "trim (toLowerCase t)"
  have direct: "[] \<notin> set (case getKeywords ?n of Own aliases \<Rightarrow> setAddAll [?n] aliases | _ \<Rightarrow> [?n])"
  proof (cases "getKeywords ?n")
    case (Own aliases)
    then have "map_of SEARCH_KEYWORDS ?n = Some aliases"
      by (auto simp: getKeywords_def split: option.splits if_splits)
    then have "(?n, aliases) \<in> set SEARCH_KEYWORDS" by (rule map_of_SomeD)
    with keywords_nonempty have "[] \<notin> set aliases"
      unfolding list_all_iff by fastforce
    with assms(2) Own show ?thesis by (simp add: setAddAll_nonempty)
  qed (use assms(2) in simp_all)
  from assms(1) have "terms =
      (if length ?n > 3
       then fold (\<lambda>entry acc. expandPartial ?n acc entry) SEARCH_KEYWORDS
              (case getKeywords ?n of Own aliases \<Rightarrow> setAddAll [?n] aliases | _ \<Rightarrow> [?n])
       else (case getKeywords ?n of Own aliases \<Rightarrow> setAddAll [?n] aliases | _ \<Rightarrow> [?n]))"
    by (auto simp: expandSearchQuery_def Let_def split: property.splits if_splits)
  then show ?thesis
    using direct fold_expandPartial_nonempty [OF direct keywords_nonempty] by simp
qed

lemma keyed_spans:
  assumes "q \<noteq> []"
  shows "list_all (\<lambda>m. spanWithinField (value m) m) (map (keyed k v t) (matches (fuzzyMatch fs q (toLowerCase v))))
         \<and> spansOrdered (map (keyed k v t) (matches (fuzzyMatch fs q (toLowerCase v))))"
proof -
  from fuzzyMatch_spans [OF assms, of "toLowerCase v" fs]
  have a: "list_all (spanWithinField (toLowerCase v)) (matches (fuzzyMatch fs q (toLowerCase v)))"
    and b: "spansOrdered (matches (fuzzyMatch fs q (toLowerCase v)))"
    by simp_all
  have "list_all (\<lambda>m. spanWithinField (value m) m) (map (keyed k v t) ms)"
    if "list_all (spanWithinField (toLowerCase v)) ms" for ms :: "Match list"
    using that by (induction ms) (auto simp: spanWithinField_def keyed_def)
  moreover have "spansOrdered (map (keyed k v t) ms)" if "spansOrdered ms" for ms :: "Match list"
    using that unfolding spansOrdered_def
    by (induction ms) (auto simp: keyed_def)
  ultimately show ?thesis using a b by blast
qed

lemma termStep_spans:
  "term \<noteq> [] \<Longrightarrow> bestSpans best \<Longrightarrow> bestSpans (termStep fs k v term best)"
  using keyed_spans [of "term" k v "Some term" fs]
  by (cases best) (auto simp: termStep_def bestSpans_def Let_def)

lemma fold_termStep_spans:
  "[] \<notin> set terms \<Longrightarrow> bestSpans best \<Longrightarrow> bestSpans (fold (termStep fs k v) terms best)"
proof (induction terms arbitrary: best)
  case Nil
  then show ?case by simp
next
  case (Cons a terms)
  then have "bestSpans (termStep fs k v a best)"
    by (intro termStep_spans) auto
  with Cons show ?case by simp
qed

lemma directStep_spans:
  "nq \<noteq> [] \<Longrightarrow> bestSpans best \<Longrightarrow> bestSpans (directStep fs nq k v best)"
  using keyed_spans [of nq k v None fs]
  by (cases best) (auto simp: directStep_def bestSpans_def)

lemma keyStep_spans:
  "nq \<noteq> [] \<Longrightarrow> [] \<notin> set terms \<Longrightarrow> bestSpans best \<Longrightarrow> bestSpans (keyStep fs it nq terms k best)"
  by (simp add: keyStep_directStep fold_termStep_spans directStep_spans)

lemma fold_keyStep_spans:
  "nq \<noteq> [] \<Longrightarrow> [] \<notin> set terms \<Longrightarrow> bestSpans best \<Longrightarrow>
   bestSpans (fold (keyStep fs it nq terms) ks best)"
  by (induction ks arbitrary: best) (simp_all add: keyStep_spans)

lemma scoreItem_spans:
  assumes "nq \<noteq> []" "[] \<notin> set terms" "scoreItem fs q nq terms i it = Inr (Some r)"
  shows "list_all (\<lambda>m. spanWithinField (value m) m) (matches r) \<and> spansOrdered (matches r)"
proof -
  have "bestSpans (0, [], None)" by (simp add: bestSpans_def spansOrdered_def)
  then have "bestSpans (fold (keyStep fs it nq terms) (keys fs) (0, [], None))"
    using assms(1,2) by (intro fold_keyStep_spans)
  moreover have "matches r = fst (snd (fold (keyStep fs it nq terms) (keys fs) (0, [], None)))"
    using assms(3)
    by (auto simp: scoreItem_def Let_def split: sum.splits prod.splits if_splits)
  ultimately show ?thesis by (simp add: bestSpans_def)
qed

lemma search_spans:
  assumes "trim (toLowerCase q) \<noteq> []" "search fs items (Some q) = Inr results"
  shows "\<forall>r\<in>set results. list_all (\<lambda>m. spanWithinField (value m) m) (matches r)
                            \<and> spansNonOverlapping (matches r)"
proof (cases "tooShort (Some q) 2")
  case True
  with assms(2) show ?thesis
    by (auto simp: search_def)
next
  case False
  let ?nq = "trim (toLowerCase q)"
  from assms(2) False obtain terms rs where
    terms: "expandSearchQuery ?nq = Inr terms" and
    rs: "scoreItems fs q ?nq terms 0 items = Inr rs" and
    results: "results = sortByScore rs"
    by (auto simp: search_def Let_def split: sum.splits)
  have ne: "[] \<notin> set terms"
    using terms
  proof (rule expandSearchQuery_nonempty)
    show "trim (toLowerCase ?nq) \<noteq> []"
      using assms(1) by (simp add: normalize_idem)
  qed
  have set: "set results = set rs"
    by (simp add: results sortByScore_def)
  show ?thesis
  proof
    fix r assume "r \<in> set results"
    with scoreItems_results(1) [OF rs] set obtain j it where
      "scoreItem fs q ?nq terms j it = Inr (Some r)" by blast
    from scoreItem_spans [OF assms(1) ne this]
    show "list_all (\<lambda>m. spanWithinField (value m) m) (matches r) \<and> spansNonOverlapping (matches r)"
      by (simp add: spansOrdered_nonOverlapping)
  qed
qed

lemma searchIndexItems_results:
  "searchIndexItems fs q nq indexedItems = Inr rs \<Longrightarrow>
   \<forall>r\<in>set rs. \<exists>it found. search fs [it] (Some q) = Inr found \<and> r \<in> set found"
proof (induction indexedItems arbitrary: rs)
  case Nil
  then show ?case by simp
next
  case (Cons it rest)
  show ?case
  proof (cases "\<not> list_ex (\<lambda>word. str_includes word nq \<or> str_includes nq word) (searchWords it)
                \<and> length nq > 3")
    case True
    with Cons.prems have "searchIndexItems fs q nq rest = Inr rs" by (simp add: Let_def)
    then show ?thesis by (rule Cons.IH)
  next
    case False
    with Cons.prems obtain found rs' where
      found: "search fs [it] (Some q) = Inr found" and
      rs': "searchIndexItems fs q nq rest = Inr rs'" and
      rs: "rs = (case found of [] \<Rightarrow> rs'
                 | r # _ \<Rightarrow> if score r \<ge> threshold fs then r # rs' else rs')"
      by (auto simp: Let_def split: sum.splits)
    have "set rs \<subseteq> set found \<union> set rs'"
      unfolding rs by (cases found) auto
    with Cons.IH [OF rs'] found show ?thesis by blast
  qed
qed

lemma searchIndex_spans:
  assumes "trim (toLowerCase q) \<noteq> []" "searchIndex fs indexedItems (Some q) = Inr results"
  shows "\<forall>r\<in>set results. list_all (\<lambda>m. spanWithinField (value m) m) (matches r)
                            \<and> spansNonOverlapping (matches r)"
proof (cases "tooShort (Some q) 2")
  case True
  with assms(2) show ?thesis
    by (auto simp: searchIndex_def)
next
  case False
  from assms(2) False obtain rs where
    rs: "searchIndexItems fs q (trim (toLowerCase q)) indexedItems = Inr rs" and
    results: "results = sortByScore rs"
    by (auto simp: searchIndex_def Let_def split: sum.splits)
  have set: "set results = set rs"
    by (simp add: results sortByScore_def)
  show ?thesis
  proof
    fix r assume "r \<in> set results"
    with searchIndexItems_results [OF rs] set obtain it found where
      "search fs [it] (Some q) = Inr found" "r \<in> set found" by blast
    with search_spans [OF assms(1)]
    show "list_all (\<lambda>m. spanWithinField (value m) m) (matches r) \<and> spansNonOverlapping (matches r)"
      by blast
  qed
qed

section \<open>C9: highlight spans and field bounds\<close>

lemma manager_install_eval:
  "fst (managerSearch (setData defaultManager [installGuide]) (Some ''vim'')) =
     Inr [\<lparr>name = Some ''x'', displayName = Some ''X'',
           description = Some ''how to install vim'', category = None, language = None,
           topics = None, stars = 0,
           searchText = ''x x how to install vim'',
           searchWords = [''how'', ''to'', ''install'', ''vim''],
           originalIndex = 0, resultScore = 3,
           highlightedName = Some (''X'' @ mark ''search-highlight'' []),
           highlightedDescription = Some (''how to install '' @ mark ''search-highlight'' ''vim'')\<rparr>]"
  by code_simp

text \<open>
  The spans of a result are within the bounds of the field they were found in
  (\<open>search_spans\<close>, \<open>searchIndex_spans\<close>). They are applied to other fields too.
  C9 at a catalog of one guide, named \<open>x\<close> and displayed as \<open>X\<close>, whose description
  is \<open>how to install vim\<close>, and the query \<open>vim\<close>: the only span of the result is
  [15, 18), found in the description, and the search manager applies it to the display
  name as well, a text of length 1. The span exceeds the bounds of that field, and the
  highlighted name is the name followed by an empty mark.
\<close>

theorem highlight_spans_exceed_field:
  "searchIndex defaultFuzzySearch (createIndex defaultFuzzySearch [installGuide]) (Some ''vim'')
     = Inr [\<lparr>score = 3,
           matches = [\<lparr>start = 15, matchEnd = 18, matchType = ''exact'', queryIndex = None,
                       key = Description, value = ''how to install vim'',
                       expandedTerm = None\<rparr>],
           item = indexItem defaultFuzzySearch 0 installGuide, refIndex = Some 0,
           matchedKey = Some Description, keywordScore = Some 2, fuzzyScore = Some 1\<rparr>]
   \<and> displayName (indexItem defaultFuzzySearch 0 installGuide) = Some ''X''
   \<and> \<not> spanWithinField ''X''
         \<lparr>start = 15, matchEnd = 18, matchType = ''exact'', queryIndex = None,
          key = Description, value = ''how to install vim'', expandedTerm = None\<rparr>
   \<and> map_sum id (map highlightedName)
        (fst (managerSearch (setData defaultManager [installGuide]) (Some ''vim'')))
       = Inr [Some (''X'' @ mark ''search-highlight'' [])]"
proof (intro conjI)
  show "displayName (indexItem defaultFuzzySearch 0 installGuide) = Some ''X''"
    by (simp add: indexItem_def Let_def installGuide_def)
  show "\<not> spanWithinField ''X''
         \<lparr>start = 15, matchEnd = 18, matchType = ''exact'', queryIndex = None,
          key = Description, value = ''how to install vim'', expandedTerm = None\<rparr>"
    by (simp add: spanWithinField_def)
  show "map_sum id (map highlightedName)
        (fst (managerSearch (setData defaultManager [installGuide]) (Some ''vim'')))
       = Inr [Some (''X'' @ mark ''search-highlight'' [])]"
    by (simp only: manager_install_eval) simp
qed (rule searchIndex_install_eval)

end
